theory Spec2Isabelle
  imports
    Main
    "HOL-Library.Word"
    "HOL-Library.Char_ord"
    "HOL-Library.List_Lexorder"
    "HOL-Library.Finite_Map"
begin

unbundle bit_operations_syntax

section \<open>The code generator of 2fa (main.go)\<close>

text \<open>
  The program computes RFC 4226 one-time codes with HMAC-SHA1 from Go's standard
  library. The library functions are modelled from their specifications (FIPS 180-1 for
  SHA-1, RFC 2104 for HMAC); the functions of main.go follow the source line by line.
  A Go \<open>[]byte\<close> holding key material is a list of 8-bit words, Go's \<open>uint32\<close> and
  \<open>uint64\<close> are 32- and 64-bit words, Go's \<open>int\<close> is \<open>int\<close> (no function of the
  program computes an \<open>int\<close> that leaves the 64-bit range).
\<close>

type_synonym byte = "8 word"
type_synonym uint32 = "32 word"
type_synonym uint64 = "64 word"

subsection \<open>SHA-1 (crypto/sha1)\<close>

text \<open>
  Inside the hash, 32-bit words are natural numbers below \<open>2 ^ 32\<close> and every
  operation that can leave that range has its wrap-around written out.
\<close>

type_synonym sha1_state = "nat \<times> nat \<times> nat \<times> nat \<times> nat"

definition add32 :: "nat \<Rightarrow> nat \<Rightarrow> nat" where
  "add32 a b = (a + b) mod 4294967296"

definition rotl32 :: "nat \<Rightarrow> nat \<Rightarrow> nat" where
  "rotl32 n x = (x * 2 ^ n) mod 4294967296 + x div 2 ^ (32 - n)"

definition not32 :: "nat \<Rightarrow> nat" where
  "not32 x = 4294967295 - x"

definition sha1_f :: "int \<Rightarrow> nat \<Rightarrow> nat \<Rightarrow> nat \<Rightarrow> nat" where
  "sha1_f t b c d =
     (if t < 20 then (b AND c) OR (not32 b AND d)
      else if t < 40 then b XOR c XOR d
      else if t < 60 then (b AND c) OR (b AND d) OR (c AND d)
      else b XOR c XOR d)"

definition sha1_k :: "int \<Rightarrow> nat" where
  "sha1_k t =
     (if t < 20 then 0x5A827999
      else if t < 40 then 0x6ED9EBA1
      else if t < 60 then 0x8F1BBCDC
      else 0xCA62C1D6)"

text \<open>The sixteen big-endian words of a 64-byte block.\<close>

fun be_words :: "nat list \<Rightarrow> nat list" where
  "be_words (a # b # c # d # bs) = (a * 16777216 + b * 65536 + c * 256 + d) # be_words bs"
| "be_words _ = []"

text \<open>
  The eighty rounds. \<open>w\<close> is the window of the sixteen schedule words
  \<open>W\<^sub>t .. W\<^sub>t\<^sub>+\<^sub>1\<^sub>5\<close>; each round uses \<open>W\<^sub>t\<close> and appends
  \<open>W\<^sub>t\<^sub>+\<^sub>1\<^sub>6 = rotl 1 (W\<^sub>t\<^sub>+\<^sub>1\<^sub>3 XOR W\<^sub>t\<^sub>+\<^sub>8 XOR W\<^sub>t\<^sub>+\<^sub>2 XOR W\<^sub>t)\<close>.
\<close>

function sha1_rounds :: "int \<Rightarrow> nat list \<Rightarrow> sha1_state \<Rightarrow> sha1_state" where
  "sha1_rounds t w (a, b, c, d, e) =
     (if t < 80
      then sha1_rounds (t + 1)
             (tl w @ [rotl32 1 (w ! 13 XOR w ! 8 XOR w ! 2 XOR w ! 0)])
             (add32 (add32 (add32 (add32 (rotl32 5 a) (sha1_f t b c d)) e) (w ! 0)) (sha1_k t),
              a, rotl32 30 b, c, d)
      else (a, b, c, d, e))"
  by pat_completeness auto
termination
  by (relation "measure (\<lambda>(t, w, s). nat (80 - t))") auto

declare sha1_rounds.simps [simp del]

definition sha1_block :: "sha1_state \<Rightarrow> nat list \<Rightarrow> sha1_state" where
  "sha1_block h p =
     (case h of (h0, h1, h2, h3, h4) \<Rightarrow>
      case sha1_rounds 0 (be_words p) h of (a, b, c, d, e) \<Rightarrow>
        (add32 h0 a, add32 h1 b, add32 h2 c, add32 h3 d, add32 h4 e))"

definition sha1_init :: sha1_state where
  "sha1_init = (0x67452301, 0xEFCDAB89, 0x98BADCFE, 0x10325476, 0xC3D2E1F0)"

definition be_bytes32 :: "nat \<Rightarrow> nat list" where
  "be_bytes32 x = [x div 16777216 mod 256, x div 65536 mod 256, x div 256 mod 256, x mod 256]"

definition be_bytes64 :: "nat \<Rightarrow> nat list" where
  "be_bytes64 x = be_bytes32 (x div 4294967296 mod 4294967296) @ be_bytes32 (x mod 4294967296)"

text \<open>
  Padding of a message of \<open>n\<close> bytes in all, of which \<open>m\<close> are still to be hashed:
  the byte \<open>0x80\<close>, zeros up to 56 modulo 64, and the length of the message in bits as
  a big-endian 64-bit number.
\<close>

definition sha1_tail :: "nat \<Rightarrow> nat list \<Rightarrow> nat list" where
  "sha1_tail n m =
     m @ [128] @ replicate ((119 - n mod 64) mod 64) 0 @ be_bytes64 (8 * n)"

definition sha1_pad :: "nat list \<Rightarrow> nat list" where
  "sha1_pad m = sha1_tail (length m) m"

function sha1_blocks :: "sha1_state \<Rightarrow> nat list \<Rightarrow> sha1_state" where
  "sha1_blocks h p =
     (if length p < 64 then h else sha1_blocks (sha1_block h (take 64 p)) (drop 64 p))"
  by pat_completeness auto
termination
  by (relation "measure (\<lambda>(h, p). length p)") auto

declare sha1_blocks.simps [simp del]

definition sha1_digest :: "sha1_state \<Rightarrow> nat list" where
  "sha1_digest h =
     (case h of (h0, h1, h2, h3, h4) \<Rightarrow>
        be_bytes32 h0 @ be_bytes32 h1 @ be_bytes32 h2 @ be_bytes32 h3 @ be_bytes32 h4)"

definition sha1 :: "nat list \<Rightarrow> nat list" where
  "sha1 m = sha1_digest (sha1_blocks sha1_init (sha1_pad m))"

subsection \<open>HMAC (crypto/hmac with sha1.New)\<close>

definition hmac_key :: "byte list \<Rightarrow> nat list" where
  "hmac_key key =
     (let k = (if 64 < length key then sha1 (map unat key) else map unat key)
      in k @ replicate (64 - length k) 0)"

definition hmac_sha1 :: "byte list \<Rightarrow> byte list \<Rightarrow> byte list" where
  "hmac_sha1 key msg =
     map of_nat
       (sha1 (map (\<lambda>b. b XOR 92) (hmac_key key) @
              sha1 (map (\<lambda>b. b XOR 54) (hmac_key key) @ map unat msg)))"

subsection \<open>hotp and totp\<close>

text \<open>\<open>binary.Write(h, binary.BigEndian, counter)\<close>: the eight bytes of the counter.\<close>

definition counter_bytes :: "uint64 \<Rightarrow> byte list" where
  "counter_bytes counter =
     [ucast (drop_bit 56 counter), ucast (drop_bit 48 counter), ucast (drop_bit 40 counter),
      ucast (drop_bit 32 counter), ucast (drop_bit 24 counter), ucast (drop_bit 16 counter),
      ucast (drop_bit 8 counter), ucast counter]"

text \<open>
  \<open>binary.BigEndian.Uint32\<close> reads the first four bytes of a slice. It panics on a
  shorter slice; \<open>hotp\<close> hands it at least five bytes (lemma \<open>hotp_slice_length\<close>
  below), so the second equation is never used by the program.
\<close>

fun be_uint32 :: "byte list \<Rightarrow> uint32" where
  "be_uint32 (a # b # c # d # bs) =
     push_bit 24 (ucast a) OR push_bit 16 (ucast b) OR push_bit 8 (ucast c) OR ucast d"
| "be_uint32 _ = 0"

text \<open>The loop \<open>for i := 0; i < digits && i < 8; i++ { d *= 10 }\<close>.\<close>

function pow10_loop :: "int \<Rightarrow> int \<Rightarrow> uint32 \<Rightarrow> uint32" where
  "pow10_loop i digits d =
     (if i < digits \<and> i < 8 then pow10_loop (i + 1) digits (d * 10) else d)"
  by pat_completeness auto
termination
  by (relation "measure (\<lambda>(i, digits, d). nat (8 - i))") auto

declare pow10_loop.simps [simp del]

definition truncated :: "byte list \<Rightarrow> uint32" where
  "truncated hsum = be_uint32 (drop (unat (last hsum AND 0x0F)) hsum) AND 0x7FFFFFFF"

definition hotp :: "byte list \<Rightarrow> uint64 \<Rightarrow> int \<Rightarrow> int" where
  "hotp key counter digits =
     (let hsum = hmac_sha1 key (counter_bytes counter);
          v = truncated hsum;
          d = pow10_loop 0 digits 1
      in uint (v mod d))"

text \<open>
  A \<open>time.Time\<close>: the seconds since the Unix epoch and the nanoseconds within the
  second (\<open>0 \<le> nsec < 10\<^sup>9\<close>). \<open>UnixNano\<close> computes \<open>sec * 1e9 + nsec\<close> in
  \<open>int64\<close>, which wraps; the conversion to \<open>uint64\<close> keeps the 64 bits.
\<close>

record gotime =
  sec :: int
  nsec :: int

definition UnixNano :: "gotime \<Rightarrow> uint64" where
  "UnixNano t = word_of_int (sec t * 1000000000 + nsec t)"

definition totp :: "byte list \<Rightarrow> gotime \<Rightarrow> int \<Rightarrow> int" where
  "totp key t digits = hotp key (UnixNano t div 30000000000) digits"

text \<open>The key of the test vectors of RFC 4226: the ASCII bytes of \<open>12345678901234567890\<close>.\<close>

definition rfc_key :: "byte list" where
  "rfc_key = [49, 50, 51, 52, 53, 54, 55, 56, 57, 48, 49, 50, 51, 52, 53, 54, 55, 56, 57, 48]"

text \<open>A key for which two counters give the same code: \<open>AAAAUCIM\<close> in base 32.\<close>

definition collide_key :: "byte list" where
  "collide_key = [0, 0, 10, 9, 12]"

section \<open>The keychain store of 2fa (main.go)\<close>

text \<open>
  The keychain file and the fields of its lines are byte strings: a \<open>string\<close> is a list
  of 8-bit characters. \<open>k.raw\<close>, the decoded secret, is a list of 8-bit words as above.
\<close>

subsection \<open>Library functions on byte strings (bytes, strings, strconv)\<close>

text \<open>
  \<open>bytes.SplitAfter(s, sep)\<close> and \<open>bytes.Split(s, sep)\<close> for a separator of one byte,
  which is how the program calls them: the pieces after each separator, and the pieces
  between the separators. Both return one (empty) piece for the empty string.
\<close>

fun SplitAfter :: "string \<Rightarrow> char \<Rightarrow> string list" where
  "SplitAfter [] sep = [[]]"
| "SplitAfter (x # xs) sep =
     (if x = sep then [x] # SplitAfter xs sep
      else (case SplitAfter xs sep of
              [] \<Rightarrow> [[x]]
            | piece # pieces \<Rightarrow> (x # piece) # pieces))"

fun Split :: "string \<Rightarrow> char \<Rightarrow> string list" where
  "Split [] sep = [[]]"
| "Split (x # xs) sep =
     (if x = sep then [] # Split xs sep
      else (case Split xs sep of
              [] \<Rightarrow> [[x]]
            | piece # pieces \<Rightarrow> (x # piece) # pieces))"

definition TrimSuffix :: "string \<Rightarrow> char \<Rightarrow> string" where
  "TrimSuffix s c = (if s \<noteq> [] \<and> last s = c then butlast s else s)"

text \<open>
  \<open>strconv.ParseUint(s, 10, 64)\<close>: a non-empty string of decimal digits whose value is
  below \<open>2\<^sup>6\<^sup>4\<close>; every other string is an error (of syntax, or of range).
\<close>

definition is_digit :: "char \<Rightarrow> bool" where
  "is_digit c = (CHR ''0'' \<le> c \<and> c \<le> CHR ''9'')"

fun parse_digits :: "string \<Rightarrow> nat \<Rightarrow> nat option" where
  "parse_digits [] n = Some n"
| "parse_digits (c # cs) n =
     (if is_digit c
      then (let n1 = n * 10 + (of_char c - 48)
            in if n1 < 18446744073709551616 then parse_digits cs n1 else None)
      else None)"

definition ParseUint :: "string \<Rightarrow> uint64 option" where
  "ParseUint s = (if s = [] then None else map_option of_nat (parse_digits s 0))"

text \<open>
  \<open>strings.ToUpper\<close>. A string of ASCII bytes has \<open>a..z\<close> mapped to \<open>A..Z\<close>, byte by
  byte. A string with a byte beyond ASCII is decoded as UTF-8 and mapped rune by rune
  through the Unicode tables of the Go release, and the result is encoded again: the
  upper case of a rune can take more bytes or fewer than the rune (U+0250, two bytes, has
  the upper case U+2C6F, three bytes; U+2C65, three bytes, has U+023A, two bytes), and
  a byte that is no UTF-8 can come out as the three bytes of U+FFFD. The tables are not part of the program:
  \<open>uni\<close> stands for \<open>strings.ToUpper\<close> on the strings that are not ASCII, and is an
  argument of every function that reaches \<open>decodeKey\<close>.
\<close>

definition is_ascii :: "string \<Rightarrow> bool" where
  "is_ascii s = list_all (\<lambda>c. c < CHR 0x80) s"

definition ToUpper :: "(string \<Rightarrow> string) \<Rightarrow> string \<Rightarrow> string" where
  "ToUpper uni s =
     (if is_ascii s
      then map (\<lambda>c. if CHR ''a'' \<le> c \<and> c \<le> CHR ''z'' then char_of (of_char c - (32::nat)) else c) s
      else uni s)"

subsection \<open>Base 32 (encoding/base32, StdEncoding.DecodeString)\<close>

definition decodeMap :: "char \<Rightarrow> byte option" where
  "decodeMap c =
     (if CHR ''A'' \<le> c \<and> c \<le> CHR ''Z'' then Some (of_nat (of_char c - 65))
      else if CHR ''2'' \<le> c \<and> c \<le> CHR ''7'' then Some (of_nat (of_char c - 24))
      else None)"

text \<open>
  One quantum of up to eight characters. \<open>j\<close> counts the characters decoded into
  \<open>dbuf\<close>; the result is \<open>dbuf\<close>, whether padding ended the input, and the input left.
  \<open>None\<close> is a \<open>CorruptInputError\<close>.
\<close>

fun quantum :: "nat \<Rightarrow> byte list \<Rightarrow> string \<Rightarrow> (byte list \<times> bool \<times> string) option" where
  "quantum j dbuf src =
     (if 8 \<le> j then Some (dbuf, False, src)
      else case src of
        [] \<Rightarrow> None
      | c # rest \<Rightarrow>
          if c = CHR ''='' \<and> 2 \<le> j \<and> length rest < 8
          then (if length rest + j < 7 then None
                else if \<not> list_all (\<lambda>x. x = CHR ''='') (take (7 - j) rest) then None
                else if j = 1 \<or> j = 3 \<or> j = 6 then None
                else Some (dbuf, True, rest))
          else (case decodeMap c of
                  None \<Rightarrow> None
                | Some v \<Rightarrow> quantum (j + 1) (dbuf @ [v]) rest))"

declare quantum.simps [simp del]

text \<open>The bytes of a quantum of \<open>dlen\<close> characters (\<open>dbuf\<close> is zero beyond them).\<close>

definition pack :: "byte list \<Rightarrow> byte list" where
  "pack dbuf =
     (let d = (\<lambda>i. if i < length dbuf then dbuf ! i else 0);
          n = (if length dbuf = 8 then 5 else if length dbuf = 7 then 4
               else if length dbuf = 5 then 3 else if length dbuf = 4 then 2
               else if length dbuf = 2 then 1 else 0)
      in take n
           [push_bit 3 (d 0) OR drop_bit 2 (d 1),
            push_bit 6 (d 1) OR push_bit 1 (d 2) OR drop_bit 4 (d 3),
            push_bit 4 (d 3) OR drop_bit 1 (d 4),
            push_bit 7 (d 4) OR push_bit 2 (d 5) OR drop_bit 3 (d 6),
            push_bit 5 (d 6) OR d 7])"

lemma quantum_rest:
  "quantum j dbuf src = Some (d, e, rest) \<Longrightarrow> j < 8 \<Longrightarrow> length rest < length src"
proof (induction j dbuf src rule: quantum.induct)
  case (1 j dbuf src)
  show ?case
  proof (cases src)
    case Nil
    with 1(2,3) show ?thesis by (simp add: quantum.simps)
  next
    case (Cons c cs)
    show ?thesis
    proof (cases "c = CHR ''='' \<and> 2 \<le> j \<and> length cs < 8")
      case True
      with 1(2,3) Cons show ?thesis
        by (auto simp: quantum.simps [of j] split: if_splits)
    next
      case False
      with 1(2,3) Cons obtain v where v: "decodeMap c = Some v"
        and q: "quantum (j + 1) (dbuf @ [v]) cs = Some (d, e, rest)"
        by (auto simp: quantum.simps [of j] split: if_splits option.splits)
      show ?thesis
      proof (cases "j + 1 < 8")
        case True
        from 1(1) [OF _ Cons _ v q True] False 1(3) have "length rest < length cs" by auto
        with Cons show ?thesis by simp
      next
        case False
        with q 1(3) have "rest = cs" by (simp add: quantum.simps [of "Suc j"])
        with Cons show ?thesis by simp
      qed
    qed
  qed
qed

function decode :: "string \<Rightarrow> byte list option" where
  "decode src =
     (if src = [] then Some []
      else (case quantum 0 [] src of
              None \<Rightarrow> None
            | Some (dbuf, end, rest) \<Rightarrow>
                if end then Some (pack dbuf)
                else map_option (\<lambda>bs. pack dbuf @ bs) (decode rest)))"
  by pat_completeness auto
termination
  by (relation "measure length") (auto dest: quantum_rest)

declare decode.simps [simp del]

definition DecodeString :: "string \<Rightarrow> byte list option" where
  "DecodeString s = decode (filter (\<lambda>c. c \<noteq> CHR 0x0D \<and> c \<noteq> CHR 0x0A) s)"

subsection \<open>The keychain\<close>

record Key =
  raw :: "byte list"
  digits :: int
  offset :: int

text \<open>
  \<open>c.data\<close> is a slice of bytes: \<open>data\<close> holds its bytes, and \<open>spare\<close> the bytes that
  follow them in its buffer, up to its capacity, which a slice expression on \<open>c.data\<close>
  can reach.
\<close>

record Keychain =
  file' :: string
  data :: string
  spare :: string
  keys :: "(string, Key) fmap"

definition counterLen :: int where
  "counterLen = 20"

definition decodeKey :: "(string \<Rightarrow> string) \<Rightarrow> string \<Rightarrow> byte list option" where
  "decodeKey uni key = DecodeString (ToUpper uni key)"

text \<open>
  The world the program runs in: the files (a file is absent, cannot be read, can be read
  but not opened for writing, or can be both), the lines the \<open>log\<close> package wrote to
  standard error, the lines written to standard output, and the clock: \<open>clock w n\<close> is
  what the \<open>n\<close>-th call of \<open>time.Now\<close> returns. A file that was opened for writing
  takes every write: a failure of \<open>WriteAt\<close> or \<open>Close\<close> is not in the model.
  \<open>ioutil.ReadFile\<close> returns the bytes of the file in a buffer of a capacity that the
  library chooses: \<open>read_spare w d\<close> are the bytes of that buffer after the bytes \<open>d\<close> of
  the file.
\<close>

datatype fstate = NotExist | ReadError string | ReadOnly string | Contents string

datatype diag = MalformedKey string nat

datatype fatal =
    ReadFailed string
  | NoSuchKey string
  | MalformedKeyCounter string string
  | OpeningKeychain
  | UpdatingKeychain
  | Panic

record world =
  files :: "string \<Rightarrow> fstate"
  stderr :: "diag list"
  stdout :: "string list"
  clock :: "nat \<Rightarrow> gotime"
  ticks :: nat
  read_spare :: "string \<Rightarrow> string"

definition time_Now :: "world \<Rightarrow> gotime \<times> world" where
  "time_Now w = (clock w (ticks w), w\<lparr>ticks := ticks w + 1\<rparr>)"

text \<open>
  The body of the loop of \<open>readKeychain\<close> for one line; \<open>offs\<close> is the offset after
  the line (\<open>offset += len(line)\<close> comes first in the body). The line is skipped as
  blank, stored in \<open>c.keys\<close> under its name, or reported as malformed.
\<close>

datatype line_result = Blank | Entry string Key | Malformed

definition read_line :: "(string \<Rightarrow> string) \<Rightarrow> string \<Rightarrow> int \<Rightarrow> line_result" where
  "read_line uni line offs =
     (let f = Split (TrimSuffix line CHR 0x0A) CHR '' '' in
      if length f = 1 \<and> length (f ! 0) = 0 then Blank
      else if 3 \<le> length f \<and> length (f ! 1) = 1 \<and>
              CHR ''6'' \<le> f ! 1 ! 0 \<and> f ! 1 ! 0 \<le> CHR ''8''
      then (case decodeKey uni (f ! 2) of
              None \<Rightarrow> Malformed
            | Some r \<Rightarrow>
                if length f = 3
                then Entry (f ! 0) \<lparr>raw = r, digits = int (of_char (f ! 1 ! 0)) - 48, offset = 0\<rparr>
                else if length f = 4 \<and> int (length (f ! 3)) = counterLen
                then (case ParseUint (f ! 3) of
                        None \<Rightarrow> Malformed
                      | Some n \<Rightarrow>
                          Entry (f ! 0)
                            \<lparr>raw = r, digits = int (of_char (f ! 1 ! 0)) - 48,
                             offset = (if last line = CHR 0x0A then offs - counterLen - 1
                                       else offs - counterLen)\<rparr>)
                else Malformed)
      else Malformed)"

fun read_lines ::
  "(string \<Rightarrow> string) \<Rightarrow> string \<Rightarrow> string list \<Rightarrow> int \<Rightarrow> nat \<Rightarrow> (string, Key) fmap \<times> diag list
     \<Rightarrow> (string, Key) fmap \<times> diag list" where
  "read_lines uni fname [] offs i (ks, lg) = (ks, lg)"
| "read_lines uni fname (line # lines) offs i (ks, lg) =
     (let lineno = i + 1; offs = offs + int (length line) in
      case read_line uni line offs of
        Blank \<Rightarrow> read_lines uni fname lines offs (i + 1) (ks, lg)
      | Entry name k \<Rightarrow> read_lines uni fname lines offs (i + 1) (fmupd name k ks, lg)
      | Malformed \<Rightarrow> read_lines uni fname lines offs (i + 1) (ks, lg @ [MalformedKey fname lineno]))"

definition readKeychain ::
  "(string \<Rightarrow> string) \<Rightarrow> string \<Rightarrow> world \<Rightarrow> fatal + Keychain \<times> world" where
  "readKeychain uni fname w =
     (let load = (\<lambda>d. case read_lines uni fname (SplitAfter d CHR 0x0A) 0 0 (fmempty, stderr w) of
                         (ks, lg) \<Rightarrow>
                           Inr (\<lparr>file' = fname, data = d, spare = read_spare w d, keys = ks\<rparr>,
                                w\<lparr>stderr := lg\<rparr>))
      in case files w fname of
           NotExist \<Rightarrow> Inr (\<lparr>file' = fname, data = [], spare = [], keys = fmempty\<rparr>, w)
         | ReadError e \<Rightarrow> Inl (ReadFailed e)
         | ReadOnly d \<Rightarrow> load d
         | Contents d \<Rightarrow> load d)"

subsection \<open>Codes\<close>

text \<open>Decimal digits of a natural number, and \<open>fmt.Sprintf("%0*d", width, n)\<close>.\<close>

function decimal :: "nat \<Rightarrow> string" where
  "decimal n =
     (if n < 10 then [char_of (48 + n)] else decimal (n div 10) @ [char_of (48 + n mod 10)])"
  by pat_completeness auto
termination
  by (relation "measure id") auto

declare decimal.simps [simp del]

text \<open>
  A negative width is the flag \<open>-\<close> with the width's absolute value: the number is
  padded with spaces on the right, and the flag \<open>0\<close> is dropped. A negative number has
  its sign before the zeros, within the width.
\<close>

definition Sprintf_0d :: "int \<Rightarrow> int \<Rightarrow> string" where
  "Sprintf_0d width n =
     (if width < 0
      then (let s = (if n < 0 then CHR ''-'' # decimal (nat (- n)) else decimal (nat n))
            in s @ replicate (nat (- width) - length s) CHR '' '')
      else if n < 0
      then CHR ''-'' # replicate (nat width - 1 - length (decimal (nat (- n)))) CHR ''0''
             @ decimal (nat (- n))
      else replicate (nat width - length (decimal (nat n))) CHR ''0'' @ decimal (nat n))"

text \<open>
  A slice expression \<open>s[lo:hi]\<close> on the bytes \<open>s\<close> of a buffer, up to its capacity; out
  of that range it panics. \<open>code\<close> takes \<open>c.data[k.offset : k.offset+counterLen]\<close> from
  the buffer of \<open>c.data\<close>, the bytes of \<open>c.data\<close> followed by the spare ones: Go
  checks the upper bound of a slice expression on a slice against the capacity, not
  the length.
  \<open>f.WriteAt(b, off)\<close> overwrites in place and extends the file where it is shorter
  (with zero bytes up to \<open>off\<close>); a negative offset is an error.
\<close>

definition slice :: "string \<Rightarrow> int \<Rightarrow> int \<Rightarrow> string option" where
  "slice s lo hi =
     (if 0 \<le> lo \<and> lo \<le> hi \<and> hi \<le> int (length s)
      then Some (take (nat (hi - lo)) (drop (nat lo) s)) else None)"

definition WriteAt :: "string \<Rightarrow> string \<Rightarrow> int \<Rightarrow> string option" where
  "WriteAt old b off =
     (if off < 0 then None
      else Some (take (nat off) old @ replicate (nat off - length old) (CHR 0x00) @ b @
                 drop (nat off + length b) old))"

definition code :: "Keychain \<Rightarrow> string \<Rightarrow> world \<Rightarrow> fatal + string \<times> world" where
  "code c name w =
     (case fmlookup (keys c) name of
        None \<Rightarrow> Inl (NoSuchKey name)
      | Some k \<Rightarrow>
          if offset k \<noteq> 0
          then (case slice (data c @ spare c) (offset k) (offset k + counterLen) of
                  None \<Rightarrow> Inl Panic
                | Some field \<Rightarrow>
                    (case ParseUint field of
                       None \<Rightarrow> Inl (MalformedKeyCounter name field)
                     | Some n0 \<Rightarrow>
                         (let n = n0 + 1;
                              cd = hotp (raw k) n (digits k)
                          in case files w (file' c) of
                               Contents old \<Rightarrow>
                                 (case WriteAt old (Sprintf_0d counterLen (uint n)) (offset k) of
                                    None \<Rightarrow> Inl UpdatingKeychain
                                  | Some new \<Rightarrow>
                                      Inr (Sprintf_0d (digits k) cd,
                                           w\<lparr>files := (files w)(file' c := Contents new)\<rparr>))
                             | _ \<Rightarrow> Inl OpeningKeychain)))
          else (case time_Now w of
                  (t, w') \<Rightarrow> Inr (Sprintf_0d (digits k) (totp (raw k) t (digits k)), w')))"

text \<open>
  \<open>showAll\<close>. The first loop ranges over the map in an order that Go does not fix; it
  collects the names, which are sorted afterwards, and the largest \<open>digits\<close>, so its
  result does not depend on the order and the model takes the sorted one.
  \<open>strings.Repeat\<close> panics on a negative count; \<open>c.keys[name]\<close> of an absent name is
  the zero \<open>Key\<close>.
\<close>

definition max_digits :: "Keychain \<Rightarrow> string list \<Rightarrow> int" where
  "max_digits c names =
     fold (\<lambda>name m. case fmlookup (keys c) name of
                       None \<Rightarrow> m
                     | Some k \<Rightarrow> if m < digits k then digits k else m) names 0"

text \<open>
  \<open>fmt.Printf("%-*s\\t%s\\n", max, code, name)\<close>: the code, spaces up to the width,
  a tab, the name and a newline.
\<close>

definition Printf_line :: "int \<Rightarrow> string \<Rightarrow> string \<Rightarrow> string" where
  "Printf_line width cd name =
     cd @ replicate (nat \<bar>width\<bar> - length cd) CHR '' '' @ [CHR 0x09] @ name @ [CHR 0x0A]"

fun show_names :: "Keychain \<Rightarrow> int \<Rightarrow> string list \<Rightarrow> world \<Rightarrow> fatal + world" where
  "show_names c mx [] w = Inr w"
| "show_names c mx (name # names) w =
     (let k = (case fmlookup (keys c) name of
                 None \<Rightarrow> \<lparr>raw = [], digits = 0, offset = 0\<rparr>
               | Some k \<Rightarrow> k)
      in if digits k < 0 then Inl Panic
         else if offset k = 0
         then (case code c name w of
                 Inl e \<Rightarrow> Inl e
               | Inr (cd, w') \<Rightarrow>
                   show_names c mx names (w'\<lparr>stdout := stdout w' @ [Printf_line mx cd name]\<rparr>))
         else show_names c mx names
                (w\<lparr>stdout := stdout w @ [Printf_line mx (replicate (nat (digits k)) CHR ''-'') name]\<rparr>))"

definition showAll :: "Keychain \<Rightarrow> world \<Rightarrow> fatal + world" where
  "showAll c w =
     (let names = sorted_list_of_fset (fmdom (keys c))
      in show_names c (max_digits c names) names w)"

section \<open>Notions for the properties of the store\<close>

text \<open>
  The pieces of \<open>SplitAfter\<close>: each but the last ends with the separator and holds no
  other one, the last holds none. A list of such pieces is the \<open>SplitAfter\<close> of its
  concatenation.
\<close>

fun pieces_after :: "string list \<Rightarrow> char \<Rightarrow> bool" where
  "pieces_after [] c = False"
| "pieces_after [p] c = (c \<notin> set p)"
| "pieces_after (p # q # ps) c =
     (p \<noteq> [] \<and> last p = c \<and> c \<notin> set (butlast p) \<and> pieces_after (q # ps) c)"

text \<open>\<open>bytes.Join\<close> with a separator of one byte, the inverse of \<open>Split\<close>.\<close>

fun Join :: "string list \<Rightarrow> char \<Rightarrow> string" where
  "Join [] c = []"
| "Join [f] c = f"
| "Join (f # g # fs) c = f @ c # Join (g # fs) c"

text \<open>The fields of a line, and the record format in the words of the specification.\<close>

definition line_fields :: "string \<Rightarrow> string list" where
  "line_fields line = Split (TrimSuffix line CHR 0x0A) CHR '' ''"

definition spec_valid_record :: "(string \<Rightarrow> string) \<Rightarrow> string list \<Rightarrow> bool" where
  "spec_valid_record uni f =
     ((length f = 3 \<or> length f = 4) \<and>
      length (f ! 1) = 1 \<and> CHR ''6'' \<le> f ! 1 ! 0 \<and> f ! 1 ! 0 \<le> CHR ''8'' \<and>
      decodeKey uni (f ! 2) \<noteq> None \<and>
      (length f = 3 \<or> length (f ! 3) = 20 \<and> ParseUint (f ! 3) \<noteq> None))"

text \<open>
  What the loop of \<open>readKeychain\<close> does with each line, in order: \<open>outcomes\<close> runs
  the body on every line with the offset the loop has there, \<open>store\<close> is the assignment
  \<open>c.keys[name] = k\<close>, \<open>reports\<close> are the calls of \<open>log.Printf\<close>.
\<close>

fun outcomes :: "(string \<Rightarrow> string) \<Rightarrow> string list \<Rightarrow> int \<Rightarrow> line_result list" where
  "outcomes uni [] offs = []"
| "outcomes uni (line # lines) offs =
     read_line uni line (offs + int (length line)) #
       outcomes uni lines (offs + int (length line))"

fun store :: "line_result \<Rightarrow> (string, Key) fmap \<Rightarrow> (string, Key) fmap" where
  "store (Entry name k) ks = fmupd name k ks"
| "store _ ks = ks"

fun reports :: "string \<Rightarrow> nat \<Rightarrow> line_result list \<Rightarrow> diag list" where
  "reports fname i [] = []"
| "reports fname i (r # rs) =
     (if r = Malformed then [MalformedKey fname (i + 1)] else []) @ reports fname (i + 1) rs"

text \<open>A file that \<open>ioutil.ReadFile\<close> can read, and its bytes.\<close>

definition readable :: "fstate \<Rightarrow> string \<Rightarrow> bool" where
  "readable st d = (st = Contents d \<or> st = ReadOnly d)"

text \<open>
  The keychain files of the examples are ASCII, so that \<open>strings.ToUpper\<close> never gets
  to a string beyond ASCII in them, and loading them is the same for every \<open>uni\<close> (lemma
  \<open>readKeychain_ascii\<close> below): the examples run with \<open>no_unicode\<close> for it. Their
  buffers have 512 spare bytes, all zero.
\<close>

definition no_unicode :: "string \<Rightarrow> string" where
  "no_unicode s = s"

definition spare_zeros :: "string \<Rightarrow> string" where
  "spare_zeros d = replicate 512 (CHR 0x00)"

text \<open>
  A keychain file to run the program on. Five lines (the fifth is the empty piece after the last newline): a time-based key,
  a line with the digit 9, a blank line, and a counter-based key of the same name as the
  first.
\<close>

definition demo_data :: string where
  "demo_data =
     ''a 6 GEZDGNBV\<newline>'' @ ''bad 9 GEZDGNBV\<newline>'' @ ''\<newline>'' @
     ''a 7 GEZDGNBV 00000000000000000000\<newline>''"

definition demo_world :: world where
  "demo_world =
     \<lparr>files = (\<lambda>p. if p = ''.2fa'' then Contents demo_data else NotExist),
      stderr = [], stdout = [], clock = (\<lambda>n. \<lparr>sec = 59, nsec = 0\<rparr>), ticks = 0,
      read_spare = spare_zeros\<rparr>"

text \<open>
  A keychain file with one counter-based key, the key of RFC 4226 in base 32, and the
  keychain that \<open>readKeychain\<close> makes of it (lemma \<open>counter_load\<close> below).
\<close>

definition counter_data :: "string \<Rightarrow> string" where
  "counter_data field =
     ''github 6 GEZDGNBVGY3TQOJQGEZDGNBVGY3TQOJQ '' @ field @ ''\<newline>''"

definition counter_world :: "string \<Rightarrow> world" where
  "counter_world field =
     \<lparr>files = (\<lambda>p. NotExist)(''.2fa'' := Contents (counter_data field)),
      stderr = [], stdout = [], clock = (\<lambda>n. \<lparr>sec = 59, nsec = 0\<rparr>), ticks = 0,
      read_spare = spare_zeros\<rparr>"

definition counter_chain :: "string \<Rightarrow> Keychain" where
  "counter_chain field =
     \<lparr>file' = ''.2fa'', data = counter_data field,
      spare = spare_zeros (counter_data field),
      keys = fmupd ''github'' \<lparr>raw = rfc_key, digits = 6, offset = 42\<rparr> fmempty\<rparr>"

text \<open>
  What \<open>showAll\<close> is to print, in the words of the specification: for every name, a
  time-based entry (offset 0) has its code, computed at the next reading of the clock, a
  counter-based entry has \<open>digits\<close> dashes; the text is left-justified to the width,
  followed by a tab and the name (and the newline).
\<close>

definition left_justify :: "int \<Rightarrow> string \<Rightarrow> string" where
  "left_justify width s = s @ replicate (nat width - length s) CHR '' ''"

fun rendered :: "Keychain \<Rightarrow> int \<Rightarrow> (nat \<Rightarrow> gotime) \<Rightarrow> nat \<Rightarrow> string list \<Rightarrow> string list" where
  "rendered c mx clk t [] = []"
| "rendered c mx clk t (name # names) =
     (case fmlookup (keys c) name of
        None \<Rightarrow> []
      | Some k \<Rightarrow>
          if offset k = 0
          then (left_justify mx (Sprintf_0d (digits k) (totp (raw k) (clk t) (digits k))) @
                  [CHR 0x09] @ name @ [CHR 0x0A]) # rendered c mx clk (t + 1) names
          else (left_justify mx (replicate (nat (digits k)) CHR ''-'') @
                  [CHR 0x09] @ name @ [CHR 0x0A]) # rendered c mx clk t names)"

text \<open>The number of time-based entries among the names: the readings of the clock.\<close>

definition time_based :: "Keychain \<Rightarrow> string list \<Rightarrow> nat" where
  "time_based c names =
     length (filter (\<lambda>name. case fmlookup (keys c) name of
                                 None \<Rightarrow> False | Some k \<Rightarrow> offset k = 0) names)"

text \<open>A keychain file with a time-based and a counter-based key.\<close>

definition show_data :: string where
  "show_data =
     ''totp 6 GEZDGNBVGY3TQOJQGEZDGNBVGY3TQOJQ\<newline>'' @
     ''hotp 8 GEZDGNBVGY3TQOJQGEZDGNBVGY3TQOJQ 00000000000000000000\<newline>''"

definition show_world :: world where
  "show_world =
     \<lparr>files = (\<lambda>p. NotExist)(''.2fa'' := Contents show_data),
      stderr = [], stdout = [], clock = (\<lambda>n. \<lparr>sec = 59, nsec = 0\<rparr>), ticks = 0,
      read_spare = spare_zeros\<rparr>"

definition show_chain :: Keychain where
  "show_chain =
     \<lparr>file' = ''.2fa'', data = show_data, spare = spare_zeros show_data,
      keys = fmupd ''hotp'' \<lparr>raw = rfc_key, digits = 8, offset = 80\<rparr>
               (fmupd ''totp'' \<lparr>raw = rfc_key, digits = 6, offset = 0\<rparr> fmempty)\<rparr>"

section \<open>Structure of the hash\<close>

lemma length_be_bytes32 [simp]: "length (be_bytes32 x) = 4"
  by (simp add: be_bytes32_def)

lemma length_sha1_digest [simp]: "length (sha1_digest h) = 20"
  by (simp add: sha1_digest_def split: prod.split)

lemma length_sha1 [simp]: "length (sha1 m) = 20"
  by (simp add: sha1_def)

lemma length_hmac_key: "length (hmac_key key) = 64"
  by (simp add: hmac_key_def Let_def)

lemma length_hmac_sha1 [simp]: "length (hmac_sha1 key msg) = 20"
  by (simp add: hmac_sha1_def)

lemma sha1_blocks_first:
  assumes "length a = 64"
  shows "sha1_blocks h (a @ r) = sha1_blocks (sha1_block h a) r"
  using assms by (subst sha1_blocks.simps) simp

lemma sha1_first_block:
  assumes "length a = 64"
  shows "sha1 (a @ m) =
    sha1_digest (sha1_blocks (sha1_block sha1_init a) (sha1_tail (64 + length m) m))"
  using assms by (simp add: sha1_def sha1_pad_def sha1_tail_def sha1_blocks_first)

text \<open>
  HMAC hashes the padded key as the first block of the inner and of the outer hash; what
  follows the key blocks is the message, and the inner digest.
\<close>

lemma hmac_sha1_blocks:
  "hmac_sha1 key msg =
     map of_nat (sha1_digest (sha1_blocks
       (sha1_block sha1_init (map (\<lambda>b. b XOR 92) (hmac_key key)))
       (sha1_tail 84 (sha1_digest (sha1_blocks
          (sha1_block sha1_init (map (\<lambda>b. b XOR 54) (hmac_key key)))
          (sha1_tail (64 + length msg) (map unat msg)))))))"
  by (simp add: hmac_sha1_def sha1_first_block length_hmac_key)

section \<open>Evaluation of the hash on the key of RFC 4226\<close>

lemma replicate_numeral_eval:
  "replicate (numeral k) x = x # replicate (pred_numeral k) x"
  by (simp add: numeral_eq_Suc)

lemmas sha1_block_eval =
  sha1_block_def add32_def rotl32_def not32_def sha1_f_def sha1_k_def
  sha1_rounds.simps [of 0] sha1_rounds.simps [of 1] sha1_rounds.simps [of "numeral k"] for k

lemmas sha1_blocks_eval =
  sha1_tail_def sha1_digest_def be_bytes64_def be_bytes32_def replicate_numeral_eval
  sha1_blocks.simps [of _ "_ # _"] sha1_blocks.simps [of _ "[]"]

lemma rfc_key_inner_pad:
  "sha1_block sha1_init (map (\<lambda>b. b XOR 54) (hmac_key rfc_key)) =
   (3418885260, 4120502956, 3183003698, 3667247555, 4167577637)"
  by (simp add: hmac_key_def rfc_key_def sha1_init_def replicate_numeral_eval sha1_block_eval)

lemma rfc_key_outer_pad:
  "sha1_block sha1_init (map (\<lambda>b. b XOR 92) (hmac_key rfc_key)) =
   (2562571725, 1491106814, 2908544490, 985678603, 4262488101)"
  by (simp add: hmac_key_def rfc_key_def sha1_init_def replicate_numeral_eval sha1_block_eval)

lemmas hmac_rfc_eval =
  hmac_sha1_blocks [of rfc_key, unfolded rfc_key_inner_pad rfc_key_outer_pad]
  counter_bytes_def sha1_blocks_eval sha1_block_eval

lemma hmac_rfc_0:
  "hmac_sha1 rfc_key (counter_bytes 0) =
     [204, 147, 207, 24, 80, 141, 148, 147, 76, 100, 182, 93, 139, 167, 102, 127, 183, 205,
      228, 176]"
  by (simp add: hmac_rfc_eval)

lemma hmac_rfc_1:
  "hmac_sha1 rfc_key (counter_bytes 1) =
     [117, 164, 138, 25, 212, 203, 225, 0, 100, 78, 138, 193, 57, 126, 234, 116, 122, 45,
      51, 171]"
  by (simp add: hmac_rfc_eval)

lemma hmac_rfc_614891469:
  "hmac_sha1 rfc_key (counter_bytes 614891469) =
     [110, 15, 72, 221, 101, 2, 243, 207, 92, 54, 245, 14, 101, 10, 98, 196, 40, 189, 191,
      81]"
  by (simp add: hmac_rfc_eval)

lemmas hotp_eval =
  hotp_def truncated_def pow10_loop.simps [of 0] pow10_loop.simps [of 1]
  pow10_loop.simps [of "numeral k"] for k

lemma hotp_rfc_0: "hotp rfc_key 0 6 = 755224"
  by (simp add: hotp_eval hmac_rfc_0)

lemma hotp_rfc_1: "hotp rfc_key 1 6 = 287082"
  by (simp add: hotp_eval hmac_rfc_1)

lemma hotp_rfc_614891469: "hotp rfc_key 614891469 6 = 433509"
  by (simp add: hotp_eval hmac_rfc_614891469)

lemma rfc_key_ascii: "map of_char ''12345678901234567890'' = rfc_key"
  by (simp add: rfc_key_def)

section \<open>Properties of hotp and totp\<close>

lemma pow10_loop_eq:
  "0 \<le> i \<Longrightarrow> i \<le> 8 \<Longrightarrow> pow10_loop i n d = d * 10 ^ nat (min (max n i) 8 - i)"
proof (induction i n d rule: pow10_loop.induct)
  case (1 i n d)
  show ?case
  proof (cases "i < n \<and> i < 8")
    case True
    have e: "nat (min (max n i) 8 - i) = Suc (nat (min (max n (i + 1)) 8 - (i + 1)))"
      using True 1(2,3) by arith
    have "pow10_loop i n d = pow10_loop (i + 1) n (d * 10)"
      using True by (subst pow10_loop.simps) simp
    also have "\<dots> = d * 10 * 10 ^ nat (min (max n (i + 1)) 8 - (i + 1))"
      using True 1 by simp
    also have "\<dots> = d * 10 ^ nat (min (max n i) 8 - i)"
      unfolding e by simp
    finally show ?thesis .
  next
    case False
    then have "pow10_loop i n d = d"
      by (subst pow10_loop.simps) auto
    moreover have "nat (min (max n i) 8 - i) = 0"
      using False 1(2,3) by arith
    ultimately show ?thesis by simp
  qed
qed

lemma uint_pow10: "k \<le> 8 \<Longrightarrow> uint ((10::uint32) ^ k) = 10 ^ k"
proof -
  assume k: "k \<le> 8"
  have "(10::int) ^ k \<le> 10 ^ 8" using k by (intro power_increasing) simp_all
  then have lt: "(10::int) ^ k < 2 ^ 32" by simp
  have "(10::uint32) ^ k = word_of_int (10 ^ k)" by simp
  moreover have "uint (word_of_int (10 ^ k) :: uint32) = take_bit 32 ((10::int) ^ k)"
    by (simp only: uint_word_of_int_eq len_bit0 len_num1 mult_1_right) simp
  ultimately have "uint ((10::uint32) ^ k) = take_bit 32 ((10::int) ^ k)"
    by simp
  also have "\<dots> = 10 ^ k" using lt by (simp add: take_bit_int_eq_self)
  finally show ?thesis .
qed

lemma hotp_mod:
  "hotp key counter n =
     uint (truncated (hmac_sha1 key (counter_bytes counter))) mod 10 ^ nat (min (max n 0) 8)"
proof -
  have k: "nat (min (max n 0) 8) \<le> 8" by simp
  show ?thesis
    by (simp add: hotp_def Let_def pow10_loop_eq uint_mod uint_pow10 [OF k] del: of_nat_power)
qed

lemma hotp_bounds: "0 \<le> hotp key counter n \<and> hotp key counter n < 10 ^ 8"
proof -
  let ?v = "uint (truncated (hmac_sha1 key (counter_bytes counter)))"
  have k: "nat (min (max n 0) 8) \<le> 8" by simp
  have "(10::int) ^ nat (min (max n 0) 8) \<le> 10 ^ 8"
    using k by (intro power_increasing) simp_all
  moreover have "?v mod 10 ^ nat (min (max n 0) 8) < 10 ^ nat (min (max n 0) 8)"
    by (intro pos_mod_bound) simp
  ultimately have "hotp key counter n < 10 ^ 8"
    unfolding hotp_mod [of key counter n] by linarith
  moreover have "0 \<le> hotp key counter n"
    unfolding hotp_mod [of key counter n] by (intro pos_mod_sign) simp
  ultimately show ?thesis by simp
qed

lemma hotp_slice_length:
  "length (hsum :: byte list) = 20 \<Longrightarrow> 5 \<le> length (drop (unat (last hsum AND 0x0F)) hsum)"
proof -
  assume l: "length hsum = 20"
  have "unat (last hsum AND 0x0F) \<le> unat (0x0F :: byte)"
    by (rule word_and_le1 [THEN word_le_nat_alt [THEN iffD1]])
  then show ?thesis using l by simp
qed

lemma totp_counter:
  assumes "0 \<le> sec t" "0 \<le> nsec t" "nsec t < 1000000000"
    and "sec t * 1000000000 + nsec t < 2 ^ 64"
  shows "UnixNano t div 30000000000 = word_of_int (sec t div 30)"
proof -
  let ?ns = "sec t * 1000000000 + nsec t"
  have ns0: "0 \<le> ?ns" using assms by simp
  have u: "uint (UnixNano t) = ?ns"
    unfolding UnixNano_def uint_word_of_int_eq
    using ns0 assms(4) by (simp add: take_bit_int_eq_self)
  have d: "?ns div 30000000000 = sec t div 30"
    using assms by (simp add: div_mult2_eq [symmetric]) 
  have "uint (UnixNano t div 30000000000) = uint (UnixNano t) div 30000000000"
    by (simp add: uint_div)
  then have "uint (UnixNano t div 30000000000) = sec t div 30" using u d by simp
  then show ?thesis
    by (metis word_of_int_uint)
qed


text \<open>
  C2. \<open>hotp\<close> applied to the secret given by the ASCII bytes of
  \<open>12345678901234567890\<close> with 6 digits returns 755224 for counter 0 and 287082 for
  counter 1 (the test vectors of RFC 4226).
\<close>

theorem hotp_rfc4226_vectors:
  "hotp (map of_char ''12345678901234567890'') 0 6 = 755224 \<and>
   hotp (map of_char ''12345678901234567890'') 1 6 = 287082"
  unfolding rfc_key_ascii using hotp_rfc_0 hotp_rfc_1 by simp

text \<open>
  C4, as the spec states it: for every timestamp at or after the Unix epoch,
  \<open>totp\<close> equals \<open>hotp\<close> at the counter \<open>floor (seconds / 30)\<close>. The code divides the
  64-bit nanosecond count \<open>uint64(t.UnixNano())\<close> by \<open>30e9\<close>; the count wraps at
  \<open>2\<^sup>6\<^sup>4\<close> nanoseconds. At Unix second 18446744074 (in the year 2554) the count has
  wrapped to 290448384, the counter is 0, and the code is 755224, where the counter
  \<open>floor (18446744074 / 30) = 614891469\<close> gives 433509.
\<close>

theorem totp_wrapped_counterexample:
  "totp rfc_key \<lparr>sec = 18446744074, nsec = 0\<rparr> 6 \<noteq>
   hotp rfc_key (word_of_int (18446744074 div 30)) 6"
proof -
  have "UnixNano \<lparr>sec = 18446744074, nsec = 0\<rparr> div 30000000000 = 0"
    by (simp add: UnixNano_def)
  then have "totp rfc_key \<lparr>sec = 18446744074, nsec = 0\<rparr> 6 = 755224"
    by (simp add: totp_def hotp_rfc_0)
  moreover have "hotp rfc_key (word_of_int (18446744074 div 30)) 6 = 433509"
    using hotp_rfc_614891469 by simp
  ultimately show ?thesis by simp
qed

text \<open>
  C4, amended: for every timestamp at or after the Unix epoch whose nanosecond count is
  below \<open>2\<^sup>6\<^sup>4\<close>, \<open>totp\<close> equals \<open>hotp\<close> at the counter
  \<open>floor (seconds / 30)\<close>.
\<close>

theorem totp_is_hotp_of_time_step:
  assumes "0 \<le> sec t" and "0 \<le> nsec t" and "nsec t < 1000000000"
    and "sec t * 1000000000 + nsec t < 2 ^ 64"
  shows "totp key t n = hotp key (word_of_int (sec t div 30)) n"
  using totp_counter [OF assms] by (simp add: totp_def)

theorem totp_is_hotp_of_time_step_witness:
  "0 \<le> sec \<lparr>sec = 59, nsec = 999999999\<rparr> \<and>
   0 \<le> nsec \<lparr>sec = 59, nsec = 999999999\<rparr> \<and>
   nsec \<lparr>sec = 59, nsec = 999999999\<rparr> < 1000000000 \<and>
   sec \<lparr>sec = 59, nsec = 999999999\<rparr> * 1000000000 +
     nsec \<lparr>sec = 59, nsec = 999999999\<rparr> < 2 ^ 64 \<and>
   totp rfc_key \<lparr>sec = 59, nsec = 999999999\<rparr> 8 = hotp rfc_key 1 8"
  using totp_is_hotp_of_time_step [of "\<lparr>sec = 59, nsec = 999999999\<rparr>" rfc_key 8]
  by simp

text \<open>
  C5. For every secret, counter and integer \<open>digits\<close>, \<open>hotp\<close> computes its result
  modulo \<open>10 ^ min (max digits 0) 8\<close>; for any \<open>digits\<close> greater than 8 the result
  equals the result for \<open>digits = 8\<close>, and the result is always a non-negative integer
  below \<open>10\<^sup>8\<close>.
\<close>

theorem hotp_digits_clamped:
  "hotp key counter n =
     uint (truncated (hmac_sha1 key (counter_bytes counter))) mod 10 ^ nat (min (max n 0) 8) \<and>
   (8 < n \<longrightarrow> hotp key counter n = hotp key counter 8) \<and>
   0 \<le> hotp key counter n \<and> hotp key counter n < 10 ^ 8"
proof -
  have "8 < n \<Longrightarrow> hotp key counter n = hotp key counter 8"
    by (simp add: hotp_mod [of key counter n] hotp_mod [of key counter 8])
  then show ?thesis
    using hotp_mod [of key counter n] hotp_bounds [of key counter n] by blast
qed

theorem hotp_digits_clamped_witness:
  "(8::int) < 9 \<and> hotp rfc_key 1 9 = hotp rfc_key 1 8 \<and>
   0 \<le> hotp rfc_key 1 9 \<and> hotp rfc_key 1 9 < 10 ^ 8"
  using hotp_digits_clamped [of rfc_key 1 9] by simp

section \<open>Two counters with one code\<close>

text \<open>
  The codes of two counters can coincide: for the key \<open>AAAAUCIM\<close> the counters 1 and
  2 both give 950996.
\<close>

lemma collide_key_inner_pad:
  "sha1_block sha1_init (map (\<lambda>b. b XOR 54) (hmac_key collide_key)) =
   (1116315254, 583300856, 3593595177, 1841793901, 2031950992)"
  by (simp add: hmac_key_def collide_key_def sha1_init_def replicate_numeral_eval sha1_block_eval)

lemma collide_key_outer_pad:
  "sha1_block sha1_init (map (\<lambda>b. b XOR 92) (hmac_key collide_key)) =
   (1579277072, 2486923993, 3417645189, 374014482, 1974749512)"
  by (simp add: hmac_key_def collide_key_def sha1_init_def replicate_numeral_eval sha1_block_eval)

lemmas hmac_collide_eval =
  hmac_sha1_blocks [of collide_key, unfolded collide_key_inner_pad collide_key_outer_pad]
  counter_bytes_def sha1_blocks_eval sha1_block_eval

lemma hmac_collide_1:
  "hmac_sha1 collide_key (counter_bytes 1) =
     [144, 23, 252, 72, 78, 192, 156, 92, 153, 102, 26, 46, 174, 2, 10, 240, 74, 207, 148,
      47]"
  by (simp add: hmac_collide_eval)

lemma hmac_collide_2:
  "hmac_sha1 collide_key (counter_bytes 2) =
     [50, 39, 121, 133, 126, 24, 12, 113, 208, 125, 56, 134, 37, 203, 252, 14, 31, 149,
      212, 79]"
  by (simp add: hmac_collide_eval)

lemma hotp_collide_1: "hotp collide_key 1 6 = 950996"
  by (simp add: hotp_eval hmac_collide_1)

lemma hotp_collide_2: "hotp collide_key 2 6 = 950996"
  by (simp add: hotp_eval hmac_collide_2)

lemma hotp_counters_collide: "hotp collide_key 1 6 = hotp collide_key 2 6"
  by (simp only: hotp_collide_1 hotp_collide_2)

section \<open>Splitting and joining\<close>

lemma SplitAfter_not_Nil [simp]: "SplitAfter s c \<noteq> []"
  by (induction s) (auto split: list.splits)

lemma Split_not_Nil [simp]: "Split s c \<noteq> []"
  by (induction s) (auto split: list.splits)

lemma concat_SplitAfter [simp]: "concat (SplitAfter s c) = s"
  by (induction s) (auto split: list.splits)

lemma SplitAfter_no_sep: "c \<notin> set s \<Longrightarrow> SplitAfter s c = [s]"
  by (induction s) auto

lemma SplitAfter_piece:
  "c \<notin> set p \<Longrightarrow> SplitAfter (p @ c # s) c = (p @ [c]) # SplitAfter s c"
  by (induction p) auto

lemma SplitAfter_concat:
  "pieces_after ps c \<Longrightarrow> SplitAfter (concat ps) c = ps"
proof (induction ps c rule: pieces_after.induct)
  case (1 c)
  then show ?case by simp
next
  case (2 p c)
  then show ?case by (simp add: SplitAfter_no_sep)
next
  case (3 p q ps c)
  from 3(2) have "p = butlast p @ [c]" and "c \<notin> set (butlast p)"
    using append_butlast_last_id [of p] by auto
  then obtain b where p: "p = b @ [c]" and n: "c \<notin> set b"
    by blast
  from 3 have ih: "SplitAfter (concat (q # ps)) c = q # ps"
    by simp
  have "SplitAfter (concat (p # q # ps)) c = SplitAfter (b @ c # concat (q # ps)) c"
    by (simp add: p)
  also have "\<dots> = (b @ [c]) # SplitAfter (concat (q # ps)) c"
    using n by (rule SplitAfter_piece)
  finally show ?case
    by (simp only: ih p)
qed

lemma pieces_after_SplitAfter: "pieces_after (SplitAfter s c) c"
proof (induction s)
  case Nil
  then show ?case by simp
next
  case (Cons x s)
  show ?case
  proof (cases "x = c")
    case True
    obtain q qs where "SplitAfter s c = q # qs"
      by (cases "SplitAfter s c") auto
    with True Cons show ?thesis by simp
  next
    case False
    obtain q qs where q: "SplitAfter s c = q # qs"
      by (cases "SplitAfter s c") auto
    show ?thesis
    proof (cases qs)
      case Nil
      with q False Cons show ?thesis by simp
    next
      case (Cons r rs)
      with q False Cons.IH show ?thesis
        by (cases q) auto
    qed
  qed
qed

lemma Join_Split [simp]: "Join (Split s c) c = s"
proof (induction s)
  case Nil
  then show ?case by simp
next
  case (Cons x s)
  obtain f fs where f: "Split s c = f # fs"
    by (cases "Split s c") auto
  with Cons show ?case
    by (cases fs) auto
qed

lemma Split_no_sep: "c \<notin> set s \<Longrightarrow> Split s c = [s]"
  by (induction s) auto

lemma Split_field:
  "c \<notin> set f \<Longrightarrow> Split (f @ c # s) c = f # Split s c"
  by (induction f) auto

lemma Split_Join:
  "fs \<noteq> [] \<Longrightarrow> list_all (\<lambda>f. c \<notin> set f) fs \<Longrightarrow> Split (Join fs c) c = fs"
proof (induction fs c rule: Join.induct)
  case (1 c)
  then show ?case by simp
next
  case (2 f c)
  then show ?case by (simp add: Split_no_sep)
next
  case (3 f g fs c)
  then show ?case by (simp add: Split_field)
qed

lemma Split_fields_no_sep: "list_all (\<lambda>f. c \<notin> set f) (Split s c)"
proof (induction s)
  case Nil
  then show ?case by simp
next
  case (Cons x s)
  obtain f fs where "Split s c = f # fs"
    by (cases "Split s c") auto
  with Cons show ?case by auto
qed

lemma TrimSuffix_append:
  "s = TrimSuffix s c @ (if s \<noteq> [] \<and> last s = c then [c] else [])"
  using append_butlast_last_id [of s] by (auto simp: TrimSuffix_def)

section \<open>Loading: the lines and what the loop does with each\<close>

lemma read_lines_outcomes:
  "read_lines uni fname lines offs i (ks, lg) =
     (fold store (outcomes uni lines offs) ks, lg @ reports fname i (outcomes uni lines offs))"
proof (induction lines arbitrary: offs i ks lg)
  case Nil
  then show ?case by simp
next
  case (Cons line lines)
  show ?case
    by (cases "read_line uni line (offs + int (length line))") (simp_all add: Cons Let_def)
qed

lemma length_outcomes [simp]: "length (outcomes uni lines offs) = length lines"
  by (induction lines arbitrary: offs) simp_all

lemma outcomes_nth:
  "j < length lines \<Longrightarrow>
   outcomes uni lines offs ! j =
     read_line uni (lines ! j) (offs + int (length (concat (take (Suc j) lines))))"
proof (induction lines arbitrary: offs j)
  case Nil
  then show ?case by simp
next
  case (Cons line lines)
  show ?case
  proof (cases j)
    case 0
    then show ?thesis by simp
  next
    case (Suc m)
    with Cons.prems have "m < length lines" by simp
    from Cons.IH [OF this, of "offs + int (length line)"] Suc show ?thesis
      by (simp add: add.assoc)
  qed
qed

lemma outcomes_append:
  "outcomes uni (xs @ ys) offs = outcomes uni xs offs @ outcomes uni ys (offs + int (length (concat xs)))"
  by (induction xs arbitrary: offs) (simp_all add: add.assoc)

lemma reports_nth:
  "MalformedKey fname n \<in> set (reports fname i rs) \<longleftrightarrow>
     (\<exists>j < length rs. n = i + j + 1 \<and> rs ! j = Malformed)"
proof (induction rs arbitrary: i)
  case Nil
  then show ?case by simp
next
  case (Cons r rs)
  have "(\<exists>j < length (r # rs). n = i + j + 1 \<and> (r # rs) ! j = Malformed) \<longleftrightarrow>
        (n = i + 1 \<and> r = Malformed) \<or> (\<exists>j < length rs. n = i + 1 + j + 1 \<and> rs ! j = Malformed)"
    (is "?l \<longleftrightarrow> ?a \<or> ?b")
  proof
    assume ?l
    then obtain j where j: "j < length (r # rs)" "n = i + j + 1" "(r # rs) ! j = Malformed"
      by blast
    show "?a \<or> ?b"
    proof (cases j)
      case 0
      with j show ?thesis by simp
    next
      case (Suc m)
      with j have "m < length rs \<and> n = i + 1 + m + 1 \<and> rs ! m = Malformed" by simp
      then show ?thesis by blast
    qed
  next
    assume "?a \<or> ?b"
    then show ?l
    proof
      assume ?a
      then have "0 < length (r # rs) \<and> n = i + 0 + 1 \<and> (r # rs) ! 0 = Malformed" by simp
      then show ?l by blast
    next
      assume ?b
      then obtain m where "m < length rs" "n = i + 1 + m + 1" "rs ! m = Malformed" by blast
      then have "Suc m < length (r # rs) \<and> n = i + Suc m + 1 \<and> (r # rs) ! Suc m = Malformed"
        by simp
      then show ?l by blast
    qed
  qed
  with Cons [of "i + 1"] show ?case by auto
qed


lemma read_line_Entry:
  "(\<exists>name k. read_line uni line offs = Entry name k) \<longleftrightarrow> spec_valid_record uni (line_fields line)"
  unfolding read_line_def line_fields_def [symmetric] Let_def spec_valid_record_def counterLen_def
  by (auto split: option.splits)


lemma read_line_name:
  "read_line uni line offs = Entry name k \<Longrightarrow> name = line_fields line ! 0"
  unfolding read_line_def line_fields_def [symmetric] Let_def
  by (auto split: option.splits if_splits)

section \<open>Loading: where the counter of a record lies\<close>

lemma line_fields_Join:
  "TrimSuffix line CHR 0x0A = Join (line_fields line) CHR '' ''"
  by (simp add: line_fields_def)

lemma line_of_four_fields:
  assumes "line_fields line = [f0, f1, f2, f3]"
  shows "line = f0 @ CHR '' '' # f1 @ CHR '' '' # f2 @ CHR '' '' # f3 @
                (if line \<noteq> [] \<and> last line = CHR 0x0A then [CHR 0x0A] else [])"
proof -
  have "TrimSuffix line CHR 0x0A = f0 @ CHR '' '' # f1 @ CHR '' '' # f2 @ CHR '' '' # f3"
    by (simp add: line_fields_Join assms)
  with TrimSuffix_append [of line "CHR 0x0A"] show ?thesis by simp
qed

text \<open>What the loop body stores for a line.\<close>

lemma read_line_Entry_cases:
  assumes "read_line uni line offs = Entry name k"
  shows "name = line_fields line ! 0 \<and> decodeKey uni (line_fields line ! 2) = Some (raw k) \<and>
         6 \<le> digits k \<and> digits k \<le> 8 \<and>
         (length (line_fields line) = 3 \<and> offset k = 0 \<or>
          length (line_fields line) = 4 \<and> length (line_fields line ! 1) = 1 \<and>
          length (line_fields line ! 3) = 20 \<and> ParseUint (line_fields line ! 3) \<noteq> None \<and>
          offset k = offs - 20 - (if last line = CHR 0x0A then 1 else 0))"
proof -
  have d: "CHR ''6'' \<le> c \<Longrightarrow> c \<le> CHR ''8'' \<Longrightarrow>
           6 \<le> int (of_char c) - 48 \<and> int (of_char c) - 48 \<le> 8" for c
    by (simp add: less_eq_char_def)
  from assms show ?thesis
    unfolding read_line_def line_fields_def [symmetric] Let_def counterLen_def
    by (auto split: option.splits if_splits dest: d)
qed

lemma four_fields:
  assumes "length (fs :: 'a list) = 4"
  shows "fs = [fs ! 0, fs ! 1, fs ! 2, fs ! 3]"
proof -
  from assms obtain a b c d where "fs = [a, b, c, d]"
    by (auto simp: length_Suc_conv numeral_eq_Suc)
  then show ?thesis by simp
qed

text \<open>
  A line of four fields that the loop stores, read at the offset \<open>start + len(line)\<close>:
  the offset of its key is that of its fourth field, at least four bytes into the line.
\<close>

lemma read_line_counter:
  assumes "read_line uni line (start + int (length line)) = Entry name k"
    and "length (line_fields line) = 4"
  shows "\<exists>pfx nl. line = pfx @ line_fields line ! 3 @ nl \<and> 4 \<le> length pfx \<and>
           length (line_fields line ! 3) = 20 \<and> ParseUint (line_fields line ! 3) \<noteq> None \<and>
           offset k = start + int (length pfx)"
proof -
  let ?f = "line_fields line"
  let ?nl = "if line \<noteq> [] \<and> last line = CHR 0x0A then [CHR 0x0A] else []"
  let ?pfx = "?f ! 0 @ CHR '' '' # ?f ! 1 @ CHR '' '' # ?f ! 2 @ [CHR '' '']"
  from read_line_Entry_cases [OF assms(1)] assms(2)
  have l1: "length (?f ! 1) = 1" and l3: "length (?f ! 3) = 20"
    and p: "ParseUint (?f ! 3) \<noteq> None"
    and o: "offset k = start + int (length line) - 20 - (if last line = CHR 0x0A then 1 else 0)"
    by auto
  have line: "line = ?pfx @ ?f ! 3 @ ?nl"
    using line_of_four_fields [OF four_fields [OF assms(2)]] by simp
  then have ne: "line \<noteq> []" by auto
  have "length line = length ?pfx + 20 + length ?nl"
    by (subst line) (simp add: l3)
  with o ne have "offset k = start + int (length ?pfx)"
    by (auto split: if_splits)
  moreover have "4 \<le> length ?pfx" using l1 by simp
  ultimately show ?thesis using line l3 p by blast
qed

lemma take_drop_middle: "take (length b) (drop (length a) (a @ b @ c)) = b"
  by simp

text \<open>
  In the file: the key stored for line \<open>j\<close> of the data, when it has a counter, has the
  offset of the twenty digits of the counter in the data.
\<close>

lemma outcome_counter:
  assumes j: "j < length lines"
    and e: "outcomes uni lines 0 ! j = Entry name k"
    and f: "length (line_fields (lines ! j)) = 4"
  shows "\<exists>a b. concat lines = a @ line_fields (lines ! j) ! 3 @ b \<and> offset k = int (length a) \<and>
           4 \<le> length a \<and> length (line_fields (lines ! j) ! 3) = 20 \<and>
           ParseUint (line_fields (lines ! j) ! 3) \<noteq> None"
proof -
  let ?pre = "concat (take j lines)"
  have c: "concat lines = ?pre @ lines ! j @ concat (drop (Suc j) lines)"
    using j by (metis Cons_nth_drop_Suc append_take_drop_id concat.simps(2) concat_append)
  have s: "concat (take (Suc j) lines) = ?pre @ lines ! j"
    using j by (simp add: take_Suc_conv_app_nth)
  have "read_line uni (lines ! j) (int (length ?pre) + int (length (lines ! j))) = Entry name k"
    using outcomes_nth [OF j, of uni 0] e s by simp
  from read_line_counter [OF this f] obtain pfx nl where
    l: "lines ! j = pfx @ line_fields (lines ! j) ! 3 @ nl" and p4: "4 \<le> length pfx"
    and l3: "length (line_fields (lines ! j) ! 3) = 20"
    and pu: "ParseUint (line_fields (lines ! j) ! 3) \<noteq> None"
    and o: "offset k = int (length ?pre) + int (length pfx)"
    by blast
  have "concat lines = (?pre @ pfx) @ line_fields (lines ! j) ! 3 @ (nl @ concat (drop (Suc j) lines))"
    by (subst c, subst l) simp
  moreover have "offset k = int (length (?pre @ pfx))" using o by simp
  moreover have "4 \<le> length (?pre @ pfx)" using p4 by simp
  ultimately show ?thesis using l3 pu by blast
qed

lemma outcome_line:
  "j < length lines \<Longrightarrow> outcomes uni lines 0 ! j = r \<Longrightarrow>
   read_line uni (lines ! j) (int (length (concat (take (Suc j) lines)))) = r"
  using outcomes_nth [of j lines uni 0] by simp


lemma outcome_valid:
  "j < length lines \<Longrightarrow>
   (\<exists>name k. outcomes uni lines 0 ! j = Entry name k) \<longleftrightarrow>
     spec_valid_record uni (line_fields (lines ! j))"
  using outcomes_nth [of j lines uni 0] by (simp only: read_line_Entry)

section \<open>Loading: the index\<close>

lemma fold_store_other:
  "\<forall>r \<in> set rs. \<forall>k. r \<noteq> Entry name k \<Longrightarrow>
   fmlookup (fold store rs ks) name = fmlookup ks name"
proof (induction rs arbitrary: ks)
  case Nil
  then show ?case by simp
next
  case (Cons r rs)
  then have "fmlookup (store r ks) name = fmlookup ks name"
    by (cases r) auto
  with Cons show ?case by simp
qed

lemma fold_store_last:
  assumes "\<forall>r \<in> set rs'. \<forall>k'. r \<noteq> Entry name k'"
  shows "fmlookup (fold store (rs @ Entry name k # rs') ks) name = Some k"
  using fold_store_other [OF assms] by simp

lemma fold_store_origin:
  "fmlookup (fold store rs ks) name = Some k \<Longrightarrow>
   fmlookup ks name = Some k \<or> (\<exists>j < length rs. rs ! j = Entry name k)"
proof (induction rs arbitrary: ks)
  case Nil
  then show ?case by simp
next
  case (Cons r rs)
  from Cons.IH [of "store r ks"] Cons.prems
  consider "fmlookup (store r ks) name = Some k" | j where "j < length rs" "rs ! j = Entry name k"
    by auto
  then show ?case
  proof cases
    case 1
    then have "fmlookup ks name = Some k \<or> r = Entry name k"
      by (cases r) (auto split: if_splits)
    then show ?thesis by auto
  next
    case 2
    then have "Suc j < length (r # rs) \<and> (r # rs) ! Suc j = Entry name k" by simp
    then show ?thesis by blast
  qed
qed


lemma readKeychain_readable:
  assumes "readable (files w fname) d"
  shows "readKeychain uni fname w =
     Inr (\<lparr>file' = fname, data = d, spare = read_spare w d,
           keys = fold store (outcomes uni (SplitAfter d CHR 0x0A) 0) fmempty\<rparr>,
          w\<lparr>stderr := stderr w @ reports fname 0 (outcomes uni (SplitAfter d CHR 0x0A) 0)\<rparr>)"
  using assms by (auto simp: readable_def readKeychain_def read_lines_outcomes)

section \<open>Loading an ASCII file\<close>

text \<open>
  On a keychain file of ASCII bytes, loading does not depend on what \<open>strings.ToUpper\<close>
  does beyond ASCII.
\<close>

lemma decodeKey_ascii: "is_ascii s \<Longrightarrow> decodeKey uni s = decodeKey uni' s"
  by (simp add: decodeKey_def ToUpper_def)

lemma Split_ascii: "is_ascii s \<Longrightarrow> p \<in> set (Split s c) \<Longrightarrow> is_ascii p"
  by (induction s arbitrary: p) (auto simp: is_ascii_def split: if_splits list.splits)

lemma SplitAfter_ascii: "is_ascii s \<Longrightarrow> p \<in> set (SplitAfter s c) \<Longrightarrow> is_ascii p"
  by (induction s arbitrary: p) (auto simp: is_ascii_def split: if_splits list.splits)

lemma TrimSuffix_ascii: "is_ascii s \<Longrightarrow> is_ascii (TrimSuffix s c)"
  by (auto simp: is_ascii_def TrimSuffix_def list_all_iff dest: in_set_butlastD)

lemma read_line_ascii:
  assumes "is_ascii line"
  shows "read_line uni line offs = read_line uni' line offs"
proof -
  let ?f = "Split (TrimSuffix line CHR 0x0A) CHR '' ''"
  have "decodeKey uni (?f ! 2) = decodeKey uni' (?f ! 2)" if "3 \<le> length ?f"
  proof -
    from that have "?f ! 2 \<in> set ?f" by simp
    from Split_ascii [OF TrimSuffix_ascii [OF assms] this] show ?thesis
      by (rule decodeKey_ascii)
  qed
  then show ?thesis
    by (auto simp: read_line_def Let_def)
qed

lemma outcomes_ascii:
  "\<forall>line \<in> set lines. is_ascii line \<Longrightarrow> outcomes uni lines offs = outcomes uni' lines offs"
  by (induction lines arbitrary: offs) (auto simp: read_line_ascii)

lemma readKeychain_ascii:
  assumes "readable (files w fname) d" and "is_ascii d"
  shows "readKeychain uni fname w = readKeychain uni' fname w"
proof -
  from assms(2) have "outcomes uni (SplitAfter d CHR 0x0A) 0 = outcomes uni' (SplitAfter d CHR 0x0A) 0"
    by (intro outcomes_ascii) (auto intro: SplitAfter_ascii)
  then show ?thesis
    by (simp add: readKeychain_readable [OF assms(1)])
qed

section \<open>Evaluation of the loop on a keychain file\<close>

lemmas decode_eval =
  decodeKey_def ToUpper_def is_ascii_def DecodeString_def decode.simps quantum.simps decodeMap_def pack_def char_of_def
  bit_Suc_0_iff

lemma decodeKey_demo: "decodeKey uni ''GEZDGNBV'' = Some [49, 50, 51, 52, 53]"
  by (simp add: decode_eval)

lemma decodeKey_rfc: "decodeKey uni ''GEZDGNBVGY3TQOJQGEZDGNBVGY3TQOJQ'' = Some rfc_key"
  by (simp add: decode_eval rfc_key_def)

lemma decodeKey_collide: "decodeKey uni ''AAAAUCIM'' = Some collide_key"
  by (simp add: decode_eval collide_key_def)

lemma decodeKey_lower: "decodeKey uni ''gezdgnbv'' = Some [49, 50, 51, 52, 53]"
  by (simp add: decode_eval)

lemma decodeKey_bad_padding: "decodeKey uni ''GE=====X'' = None"
  by (simp add: decode_eval)

text \<open>
  A secret with bytes beyond ASCII after its padding: what the decoder ignores is counted
  by the test for padding, so that the number of bytes of the upper case decides. The
  upper case of U+0250 (bytes C9 90) is U+2C6F (bytes E2 B1 AF), that of U+2C65 (bytes
  E2 B1 A5) is U+023A (bytes C8 BA).
\<close>

lemma decodeKey_longer_upper_case:
  assumes "uni (''GE======'' @ [CHR 0xC9, CHR 0x90]) = ''GE======'' @ [CHR 0xE2, CHR 0xB1, CHR 0xAF]"
  shows "decodeKey uni (''GE======'' @ [CHR 0xC9, CHR 0x90]) = None"
  using assms by (simp add: decode_eval)

lemma decodeKey_shorter_upper_case:
  assumes "uni (''GE======'' @ [CHR 0xE2, CHR 0xB1, CHR 0xA5]) = ''GE======'' @ [CHR 0xC8, CHR 0xBA]"
  shows "decodeKey uni (''GE======'' @ [CHR 0xE2, CHR 0xB1, CHR 0xA5]) = Some [49]"
  using assms by (simp add: decode_eval)

lemma decodeKey_ignores_after_padding: "decodeKey uni ''GE======X'' = Some [49]"
  by (simp add: decode_eval)

lemmas store_eval =
  read_line_def TrimSuffix_def counterLen_def ParseUint_def is_digit_def line_fields_def
  spec_valid_record_def char_of_def bit_Suc_0_iff decodeKey_demo decodeKey_rfc

lemma demo_lines:
  "SplitAfter demo_data CHR 0x0A =
     [''a 6 GEZDGNBV\<newline>'', ''bad 9 GEZDGNBV\<newline>'', ''\<newline>'',
      ''a 7 GEZDGNBV 00000000000000000000\<newline>'', []]"
  by (simp add: demo_data_def)

lemma demo_outcomes:
  "outcomes uni (SplitAfter demo_data CHR 0x0A) 0 =
     [Entry ''a'' \<lparr>raw = [49, 50, 51, 52, 53], digits = 6, offset = 0\<rparr>,
      Malformed, Blank,
      Entry ''a'' \<lparr>raw = [49, 50, 51, 52, 53], digits = 7, offset = 42\<rparr>,
      Blank]"
  unfolding demo_lines by (simp add: store_eval)

lemma demo_readable: "readable (files demo_world ''.2fa'') demo_data"
  by (simp add: readable_def demo_world_def)

lemma read_line_longer_upper_case:
  assumes "uni (''GE======'' @ [CHR 0xC9, CHR 0x90]) = ''GE======'' @ [CHR 0xE2, CHR 0xB1, CHR 0xAF]"
  shows "read_line uni (''x 6 GE======'' @ [CHR 0xC9, CHR 0x90]) offs = Malformed"
  using decodeKey_longer_upper_case [of uni, OF assms]
  by (simp add: read_line_def TrimSuffix_def)

lemma read_line_shorter_upper_case:
  assumes "uni (''GE======'' @ [CHR 0xE2, CHR 0xB1, CHR 0xA5]) = ''GE======'' @ [CHR 0xC8, CHR 0xBA]"
  shows "read_line uni (''x 6 GE======'' @ [CHR 0xE2, CHR 0xB1, CHR 0xA5]) offs =
           Entry ''x'' \<lparr>raw = [49], digits = 6, offset = 0\<rparr>"
  using decodeKey_shorter_upper_case [of uni, OF assms]
  by (simp add: read_line_def TrimSuffix_def char_of_def bit_Suc_0_iff)

section \<open>Properties of loading\<close>



text \<open>
  C6. When Load reads a file containing two valid records with the same name (lines
  \<open>i\<close> and \<open>j\<close>, and no later one), the in-memory index maps that name to the record from
  the later line, no error is raised (loading returns, and neither line is reported),
  and the file is as it was.
\<close>

theorem load_last_record_wins:
  assumes "readable (files w fname) d"
    and "i < j" and "j < length (SplitAfter d CHR 0x0A)"
    and "spec_valid_record uni (line_fields (SplitAfter d CHR 0x0A ! i))"
    and "line_fields (SplitAfter d CHR 0x0A ! i) ! 0 = name"
    and "spec_valid_record uni (line_fields (SplitAfter d CHR 0x0A ! j))"
    and "line_fields (SplitAfter d CHR 0x0A ! j) ! 0 = name"
    and "\<forall>m. j < m \<and> m < length (SplitAfter d CHR 0x0A) \<and>
             spec_valid_record uni (line_fields (SplitAfter d CHR 0x0A ! m)) \<longrightarrow>
             line_fields (SplitAfter d CHR 0x0A ! m) ! 0 \<noteq> name"
  shows "\<exists>c w' k. readKeychain uni fname w = Inr (c, w') \<and>
           outcomes uni (SplitAfter d CHR 0x0A) 0 ! j = Entry name k \<and>
           fmlookup (keys c) name = Some k \<and>
           decodeKey uni (line_fields (SplitAfter d CHR 0x0A ! j) ! 2) = Some (raw k) \<and>
           MalformedKey fname (i + 1) \<notin> set (stderr w') - set (stderr w) \<and>
           MalformedKey fname (j + 1) \<notin> set (stderr w') - set (stderr w) \<and>
           files w' = files w \<and> data c = d"
proof -
  let ?lines = "SplitAfter d CHR 0x0A"
  let ?rs = "outcomes uni ?lines 0"
  let ?c = "\<lparr>file' = fname, data = d, spare = read_spare w d, keys = fold store ?rs fmempty\<rparr>"
  let ?w = "w\<lparr>stderr := stderr w @ reports fname 0 ?rs\<rparr>"
  have r: "readKeychain uni fname w = Inr (?c, ?w)"
    by (rule readKeychain_readable [OF assms(1)])
  have il: "i < length ?lines" using assms(2,3) by simp
  have entry: "\<exists>k. ?rs ! m = Entry (line_fields (?lines ! m) ! 0) k"
    if "m < length ?lines" "spec_valid_record uni (line_fields (?lines ! m))" for m
  proof -
    from that(2) obtain name' k where e: "read_line uni (?lines ! m) (0 + int (length (concat (take (Suc m) ?lines)))) = Entry name' k"
      using read_line_Entry by blast
    from read_line_name [OF e] e outcomes_nth [OF that(1), of uni 0] show ?thesis by auto
  qed
  from entry [OF assms(3,6)] assms(7) obtain k where k: "?rs ! j = Entry name k" by auto
  from entry [OF il assms(4)] assms(5) obtain k1 where k1: "?rs ! i = Entry name k1" by auto
  have later: "\<forall>r \<in> set (drop (Suc j) ?rs). \<forall>k'. r \<noteq> Entry name k'"
  proof (intro ballI allI notI)
    fix r k' assume "r \<in> set (drop (Suc j) ?rs)" and rk: "r = Entry name k'"
    then obtain n where n: "n < length (drop (Suc j) ?rs)" "drop (Suc j) ?rs ! n = r"
      by (auto simp: in_set_conv_nth)
    let ?m = "Suc j + n"
    from n have m: "?m < length ?lines" and rm: "?rs ! ?m = Entry name k'"
      using rk by auto
    from outcomes_nth [OF m, of uni 0] rm
    have e: "read_line uni (?lines ! ?m) (0 + int (length (concat (take (Suc ?m) ?lines)))) = Entry name k'"
      by simp
    then have "spec_valid_record uni (line_fields (?lines ! ?m))"
      using read_line_Entry by blast
    moreover from read_line_name [OF e] have "line_fields (?lines ! ?m) ! 0 = name" by simp
    ultimately show False using assms(8) m by auto
  qed
  have "?rs = take j ?rs @ Entry name k # drop (Suc j) ?rs"
    using assms(3) k by (metis id_take_nth_drop length_outcomes)
  then have "fmlookup (fold store ?rs fmempty) name =
             fmlookup (fold store (take j ?rs @ Entry name k # drop (Suc j) ?rs) fmempty) name"
    by simp
  also have "\<dots> = Some k"
    by (rule fold_store_last [OF later])
  finally have look: "fmlookup (keys ?c) name = Some k" by simp
  have dk: "decodeKey uni (line_fields (?lines ! j) ! 2) = Some (raw k)"
    using outcomes_nth [OF assms(3), of uni 0] k read_line_Entry_cases by metis
  have "MalformedKey fname (n + 1) \<notin> set (reports fname 0 ?rs)"
    if "n < length ?lines" "?rs ! n = Entry name k'" for n k'
    using that by (auto simp: reports_nth)
  from this [OF il k1] this [OF assms(3) k]
  have "MalformedKey fname (i + 1) \<notin> set (stderr ?w) - set (stderr w)"
    and "MalformedKey fname (j + 1) \<notin> set (stderr ?w) - set (stderr w)"
    by auto
  with r k look dk show ?thesis
    by (intro exI [of _ ?c] exI [of _ ?w] exI [of _ k]) simp
qed

theorem load_last_record_wins_witness:
  "readable (files demo_world ''.2fa'') demo_data \<and> (0::nat) < 3 \<and>
   3 < length (SplitAfter demo_data CHR 0x0A) \<and>
   spec_valid_record no_unicode (line_fields (SplitAfter demo_data CHR 0x0A ! 0)) \<and>
   line_fields (SplitAfter demo_data CHR 0x0A ! 0) ! 0 = ''a'' \<and>
   spec_valid_record no_unicode (line_fields (SplitAfter demo_data CHR 0x0A ! 3)) \<and>
   line_fields (SplitAfter demo_data CHR 0x0A ! 3) ! 0 = ''a'' \<and>
   (\<exists>c w'. readKeychain no_unicode ''.2fa'' demo_world = Inr (c, w') \<and>
      fmlookup (keys c) ''a'' = Some \<lparr>raw = [49, 50, 51, 52, 53], digits = 7, offset = 42\<rparr> \<and>
      files w' = files demo_world)"
proof -
  have v0: "spec_valid_record no_unicode (line_fields (SplitAfter demo_data CHR 0x0A ! 0))"
    and n0: "line_fields (SplitAfter demo_data CHR 0x0A ! 0) ! 0 = ''a''"
    and v3: "spec_valid_record no_unicode (line_fields (SplitAfter demo_data CHR 0x0A ! 3))"
    and n3: "line_fields (SplitAfter demo_data CHR 0x0A ! 3) ! 0 = ''a''"
    and len: "3 < length (SplitAfter demo_data CHR 0x0A)"
    unfolding demo_lines by (simp_all add: store_eval)
  have later: "\<forall>m. 3 < m \<and> m < length (SplitAfter demo_data CHR 0x0A) \<and>
       spec_valid_record no_unicode (line_fields (SplitAfter demo_data CHR 0x0A ! m)) \<longrightarrow>
       line_fields (SplitAfter demo_data CHR 0x0A ! m) ! 0 \<noteq> ''a''"
  proof (intro allI impI)
    fix m :: nat
    assume a: "3 < m \<and> m < length (SplitAfter demo_data CHR 0x0A) \<and>
       spec_valid_record no_unicode (line_fields (SplitAfter demo_data CHR 0x0A ! m))"
    then have "m = 4" unfolding demo_lines by simp
    with a show "line_fields (SplitAfter demo_data CHR 0x0A ! m) ! 0 \<noteq> ''a''"
      unfolding demo_lines by (simp add: store_eval)
  qed
  from load_last_record_wins [OF demo_readable _ len v0 n0 v3 n3 later]
  obtain c w' k where "readKeychain no_unicode ''.2fa'' demo_world = Inr (c, w')"
    and "outcomes no_unicode (SplitAfter demo_data CHR 0x0A) 0 ! 3 = Entry ''a'' k"
    and "fmlookup (keys c) ''a'' = Some k" and "files w' = files demo_world"
    by auto
  then have "readKeychain no_unicode ''.2fa'' demo_world = Inr (c, w') \<and>
      fmlookup (keys c) ''a'' = Some \<lparr>raw = [49, 50, 51, 52, 53], digits = 7, offset = 42\<rparr> \<and>
      files w' = files demo_world"
    unfolding demo_outcomes by simp
  with demo_readable v0 n0 v3 n3 len show ?thesis by auto
qed

text \<open>
  C10. For every record that Load accepts from a valid line of four fields the computed
  counter offset is strictly positive, and every accepted record of three fields has
  offset 0; every key of the index is the record of such a line, so the test
  \<open>offset \<noteq> 0\<close> of \<open>code\<close> and \<open>showAll\<close> identifies exactly the counter-based records.
\<close>

theorem counter_offset_marks_counter_records:
  assumes "readable (files w fname) d"
  shows "\<exists>c w'. readKeychain uni fname w = Inr (c, w') \<and>
      (\<forall>j name k. j < length (SplitAfter d CHR 0x0A) \<and>
           outcomes uni (SplitAfter d CHR 0x0A) 0 ! j = Entry name k \<longrightarrow>
           (length (line_fields (SplitAfter d CHR 0x0A ! j)) = 4 \<and> 0 < offset k \<or>
            length (line_fields (SplitAfter d CHR 0x0A ! j)) = 3 \<and> offset k = 0)) \<and>
      (\<forall>name k. fmlookup (keys c) name = Some k \<longrightarrow>
           (\<exists>j < length (SplitAfter d CHR 0x0A).
              outcomes uni (SplitAfter d CHR 0x0A) 0 ! j = Entry name k \<and>
              (offset k \<noteq> 0 \<longleftrightarrow> length (line_fields (SplitAfter d CHR 0x0A ! j)) = 4)))"
proof -
  let ?lines = "SplitAfter d CHR 0x0A"
  let ?rs = "outcomes uni ?lines 0"
  let ?c = "\<lparr>file' = fname, data = d, spare = read_spare w d, keys = fold store ?rs fmempty\<rparr>"
  let ?w = "w\<lparr>stderr := stderr w @ reports fname 0 ?rs\<rparr>"
  have r: "readKeychain uni fname w = Inr (?c, ?w)"
    by (rule readKeychain_readable [OF assms])
  have a: "length (line_fields (?lines ! j)) = 4 \<and> 0 < offset k \<or>
           length (line_fields (?lines ! j)) = 3 \<and> offset k = 0"
    if j: "j < length ?lines" and e: "?rs ! j = Entry name k" for j name k
  proof -
    from outcomes_nth [OF j, of uni 0] e
    have "read_line uni (?lines ! j) (0 + int (length (concat (take (Suc j) ?lines)))) = Entry name k"
      by simp
    from read_line_Entry_cases [OF this]
    consider "length (line_fields (?lines ! j)) = 3" "offset k = 0"
      | "length (line_fields (?lines ! j)) = 4"
      by auto
    then show ?thesis
    proof cases
      case 1
      then show ?thesis by simp
    next
      case 2
      from outcome_counter [OF j e 2] have "0 < offset k" by auto
      with 2 show ?thesis by simp
    qed
  qed
  have b: "\<exists>j < length ?lines. ?rs ! j = Entry name k \<and>
             (offset k \<noteq> 0 \<longleftrightarrow> length (line_fields (?lines ! j)) = 4)"
    if "fmlookup (keys ?c) name = Some k" for name k
  proof -
    from that fold_store_origin [of ?rs fmempty name k]
    obtain j where j: "j < length ?lines" "?rs ! j = Entry name k" by auto
    with a [OF j] show ?thesis by auto
  qed
  show ?thesis
    using r a b by (intro exI [of _ ?c] exI [of _ ?w]) blast
qed

theorem counter_offset_marks_counter_records_witness:
  "readable (files demo_world ''.2fa'') demo_data \<and>
   (\<exists>c w'. readKeychain no_unicode ''.2fa'' demo_world = Inr (c, w') \<and>
      (\<exists>k. fmlookup (keys c) ''a'' = Some k \<and> offset k = 42 \<and>
           length (line_fields (SplitAfter demo_data CHR 0x0A ! 3)) = 4))"
proof -
  from counter_offset_marks_counter_records [OF demo_readable]
  obtain c w' where r: "readKeychain no_unicode ''.2fa'' demo_world = Inr (c, w')"
    by blast
  then have "keys c = fold store (outcomes no_unicode (SplitAfter demo_data CHR 0x0A) 0) fmempty"
    using readKeychain_readable [OF demo_readable] by auto
  then have "fmlookup (keys c) ''a'' =
      Some \<lparr>raw = [49, 50, 51, 52, 53], digits = 7, offset = 42\<rparr>"
    unfolding demo_outcomes by simp
  moreover have "length (line_fields (SplitAfter demo_data CHR 0x0A ! 3)) = 4"
    unfolding demo_lines by (simp add: store_eval)
  ultimately show ?thesis using r demo_readable by auto
qed

section \<open>Decimal text\<close>

lemma is_digit_char_of: "(d::nat) < 10 \<Longrightarrow> is_digit (char_of (48 + d))"
  by (simp add: is_digit_def less_eq_char_def)

lemma of_char_digit: "(d::nat) < 10 \<Longrightarrow> of_char (char_of (48 + d)) - 48 = d"
  by simp

lemma decimal_digits: "list_all is_digit (decimal n)"
proof (induction n rule: decimal.induct)
  case (1 n)
  show ?case
  proof (cases "n < 10")
    case True
    then show ?thesis
      by (subst decimal.simps) (simp add: is_digit_char_of)
  next
    case False
    with 1 show ?thesis
      by (subst decimal.simps) (simp add: is_digit_char_of)
  qed
qed

lemma decimal_not_Nil [simp]: "decimal n \<noteq> []"
  by (subst decimal.simps) simp

lemma length_decimal: "0 < k \<Longrightarrow> n < 10 ^ k \<Longrightarrow> length (decimal n) \<le> k"
proof (induction n arbitrary: k rule: decimal.induct)
  case (1 n)
  show ?case
  proof (cases "n < 10")
    case True
    with 1(2) show ?thesis
      by (subst decimal.simps) simp
  next
    case False
    have "1 < k"
    proof (rule ccontr)
      assume "\<not> 1 < k"
      with 1(2) have "k = 1" by simp
      with 1(3) False show False by simp
    qed
    then obtain m where k: "k = Suc m" and m: "0 < m"
      by (cases k) auto
    from 1(3) k have "n div 10 < 10 ^ m"
      by (simp add: less_mult_imp_div_less mult.commute)
    from 1(1) [OF False m this] k False show ?thesis
      by (subst decimal.simps) simp
  qed
qed

text \<open>The value of a string of digits, read from an accumulator as \<open>ParseUint\<close> does.\<close>

lemma parse_digits_append:
  "parse_digits (xs @ ys) a =
     (case parse_digits xs a of None \<Rightarrow> None | Some b \<Rightarrow> parse_digits ys b)"
  by (induction xs arbitrary: a) (simp_all add: Let_def)

lemma parse_digits_zeros:
  "parse_digits (replicate m CHR ''0'') 0 = Some 0"
  by (induction m) (simp_all add: is_digit_def)

lemma parse_digits_ge: "parse_digits s a = Some b \<Longrightarrow> a \<le> b"
proof (induction s arbitrary: a)
  case Nil
  then show ?case by simp
next
  case (Cons c s)
  from Cons.prems have "parse_digits s (a * 10 + (of_char c - 48)) = Some b"
    by (simp add: Let_def split: if_splits)
  from Cons.IH [OF this] show ?case by simp
qed

lemma parse_digits_decimal:
  "a * 10 ^ length (decimal n) + n < 18446744073709551616 \<Longrightarrow>
   parse_digits (decimal n) a = Some (a * 10 ^ length (decimal n) + n)"
proof (induction n arbitrary: a rule: decimal.induct)
  case (1 n)
  show ?case
  proof (cases "n < 10")
    case True
    then have d: "decimal n = [char_of (48 + n)]"
      by (subst decimal.simps) simp
    with 1(2) True show ?thesis
      by (simp add: is_digit_char_of)
  next
    case False
    then have d: "decimal n = decimal (n div 10) @ [char_of (48 + n mod 10)]"
      by (subst decimal.simps) simp
    let ?l = "length (decimal (n div 10))"
    have e: "a * 10 ^ length (decimal n) + n = (a * 10 ^ ?l + n div 10) * 10 + n mod 10"
      by (simp add: d algebra_simps)
    with 1(2) have "(a * 10 ^ ?l + n div 10) * 10 + n mod 10 < 18446744073709551616"
      by simp
    moreover have "a * 10 ^ ?l + n div 10 \<le> (a * 10 ^ ?l + n div 10) * 10 + n mod 10"
      by simp
    ultimately have b: "a * 10 ^ ?l + n div 10 < 18446744073709551616"
      by (rule le_less_trans [rotated])
    from 1(1) [OF False b] 1(2) show ?thesis
      unfolding e by (subst d) (simp add: parse_digits_append is_digit_char_of)
  qed
qed

text \<open>The counter as \<open>code\<close> writes it: twenty digits, which \<open>ParseUint\<close> reads back.\<close>

lemma uint64_decimal_length: "length (decimal (unat (n :: uint64))) \<le> 20"
proof -
  have "unat n < 2 ^ 64"
    using unsigned_less [of n, where 'a = nat] by simp
  also have "\<dots> < (10::nat) ^ 20" by simp
  finally show ?thesis
    by (intro length_decimal) simp_all
qed

lemma Sprintf_counter:
  "Sprintf_0d counterLen (uint (n :: uint64)) =
     replicate (20 - length (decimal (unat n))) CHR ''0'' @ decimal (unat n)"
  by (simp add: Sprintf_0d_def counterLen_def)

lemma length_Sprintf_counter [simp]:
  "length (Sprintf_0d counterLen (uint (n :: uint64))) = 20"
  using uint64_decimal_length [of n] by (simp add: Sprintf_counter)

lemma digits_Sprintf_counter:
  "list_all is_digit (Sprintf_0d counterLen (uint (n :: uint64)))"
  using decimal_digits [of "unat n"]
  by (auto simp: Sprintf_counter list_all_iff is_digit_def)

lemma ParseUint_Sprintf_counter:
  "ParseUint (Sprintf_0d counterLen (uint (n :: uint64))) = Some n"
proof -
  have "unat n < 2 ^ 64"
    using unsigned_less [of n, where 'a = nat] by simp
  then have "parse_digits (decimal (unat n)) 0 = Some (unat n)"
    using parse_digits_decimal [of 0 "unat n"] by simp
  then have "parse_digits (Sprintf_0d counterLen (uint n)) 0 = Some (unat n)"
    by (simp add: Sprintf_counter parse_digits_append parse_digits_zeros)
  moreover have "Sprintf_0d counterLen (uint n) \<noteq> []"
    by (simp add: Sprintf_counter)
  ultimately show ?thesis
    by (simp add: ParseUint_def)
qed

lemma ParseUint_digits: "ParseUint s = Some n \<Longrightarrow> list_all is_digit s"
proof -
  have "parse_digits s a = Some b \<Longrightarrow> list_all is_digit s" for a b
    by (induction s arbitrary: a) (auto simp: Let_def split: if_splits)
  then show "ParseUint s = Some n \<Longrightarrow> list_all is_digit s"
    by (auto simp: ParseUint_def split: if_splits)
qed

lemma is_digit_not_sep:
  "is_digit c \<Longrightarrow> c \<noteq> CHR '' '' \<and> c \<noteq> CHR 0x0A"
  by (auto simp: is_digit_def less_eq_char_def)

section \<open>Codes of counter-based keys\<close>

lemma slice_middle:
  "length f = 20 \<Longrightarrow>
   slice (a @ f @ b) (int (length a)) (int (length a) + counterLen) = Some f"
  by (simp add: slice_def counterLen_def)

lemma slice_buffer: "slice d lo hi = Some f \<Longrightarrow> slice (d @ s) lo hi = Some f"
  by (auto simp: slice_def split: if_splits)

lemma WriteAt_middle:
  "length f = length g \<Longrightarrow> WriteAt (a @ f @ b) g (int (length a)) = Some (a @ g @ b)"
  by (simp add: WriteAt_def)

text \<open>
  The counter branch of \<open>code\<close>, when the twenty bytes at the offset parse and the file
  can be opened for writing.
\<close>

lemma code_counter:
  assumes "fmlookup (keys c) name = Some k" and "offset k \<noteq> 0"
    and "slice (data c) (offset k) (offset k + counterLen) = Some field"
    and "ParseUint field = Some n"
    and "files w (file' c) = Contents old"
  shows "code c name w =
     Inr (Sprintf_0d (digits k) (hotp (raw k) (n + 1) (digits k)),
          w\<lparr>files := (files w)(file' c := Contents
               (take (nat (offset k)) old @ replicate (nat (offset k) - length old) (CHR 0x00) @
                Sprintf_0d counterLen (uint (n + 1)) @ drop (nat (offset k) + 20) old))\<rparr>)"
proof -
  from assms(3) have "0 \<le> offset k"
    by (simp add: slice_def split: if_splits)
  with assms slice_buffer [OF assms(3), of "spare c"] show ?thesis
    by (simp add: code_def WriteAt_def Let_def)
qed

lemma code_time:
  assumes "fmlookup (keys c) name = Some k" and "offset k = 0"
  shows "code c name w =
     Inr (Sprintf_0d (digits k) (totp (raw k) (clock w (ticks w)) (digits k)),
          w\<lparr>ticks := ticks w + 1\<rparr>)"
  using assms by (simp add: code_def time_Now_def)

text \<open>
  The keys of a loaded keychain: a key with an offset other than 0 has it at twenty
  digits of the data that parse, at least four bytes into the data.
\<close>

lemma loaded_key:
  assumes "readable (files w fname) d" and "readKeychain uni fname w = Inr (c, w')"
    and "fmlookup (keys c) name = Some k"
  shows "file' c = fname \<and> data c = d \<and> files w' = files w \<and> 6 \<le> digits k \<and> digits k \<le> 8 \<and>
         (offset k = 0 \<or>
          (\<exists>a f b. d = a @ f @ b \<and> offset k = int (length a) \<and> 4 \<le> length a \<and>
             length f = 20 \<and> ParseUint f \<noteq> None))"
proof -
  let ?lines = "SplitAfter d CHR 0x0A"
  let ?rs = "outcomes uni ?lines 0"
  from readKeychain_readable [OF assms(1)] assms(2)
  have c: "c = \<lparr>file' = fname, data = d, spare = read_spare w d, keys = fold store ?rs fmempty\<rparr>"
    and w': "w' = w\<lparr>stderr := stderr w @ reports fname 0 ?rs\<rparr>"
    by simp_all
  from assms(3) c fold_store_origin [of ?rs fmempty name k]
  obtain j where j: "j < length ?lines" and e: "?rs ! j = Entry name k"
    by auto
  from read_line_Entry_cases [OF outcome_line [OF j e]]
  have dg: "6 \<le> digits k \<and> digits k \<le> 8"
    and cases: "offset k = 0 \<or> length (line_fields (?lines ! j)) = 4"
    by auto
  from cases have "offset k = 0 \<or>
      (\<exists>a f b. d = a @ f @ b \<and> offset k = int (length a) \<and> 4 \<le> length a \<and>
         length f = 20 \<and> ParseUint f \<noteq> None)"
  proof
    assume "offset k = 0"
    then show ?thesis by simp
  next
    assume "length (line_fields (?lines ! j)) = 4"
    from outcome_counter [OF j e this] show ?thesis
      by (simp only: concat_SplitAfter) blast
  qed
  with c w' dg show ?thesis by simp
qed

section \<open>Rewriting a counter in place keeps the records\<close>

lemma list_all_digit_no_sep:
  "list_all is_digit g \<Longrightarrow> CHR '' '' \<notin> set g \<and> CHR 0x0A \<notin> set g"
  by (auto simp: list_all_iff dest: is_digit_not_sep)

text \<open>
  A line of four fields with another twenty digits in place of its counter: the same
  fields but the fourth, and the same end of line.
\<close>

lemma rewrite_fields:
  assumes f: "line_fields line = [f0, f1, f2, f3]"
    and g: "list_all is_digit g" "g \<noteq> []"
  defines "nl \<equiv> (if line \<noteq> [] \<and> last line = CHR 0x0A then [CHR 0x0A] else [])"
  defines "line' \<equiv> f0 @ CHR '' '' # f1 @ CHR '' '' # f2 @ CHR '' '' # g @ nl"
  shows "line_fields line' = [f0, f1, f2, g]"
    and "line' \<noteq> []" and "last line' = CHR 0x0A \<longleftrightarrow> line \<noteq> [] \<and> last line = CHR 0x0A"
proof -
  from g have gn: "CHR 0x0A \<notin> set g" and gs: "CHR '' '' \<notin> set g"
    using list_all_digit_no_sep by blast+
  from g(2) gn have lg: "last g \<noteq> CHR 0x0A"
    using last_in_set by metis
  show ne: "line' \<noteq> []" by (simp add: line'_def)
  show la: "last line' = CHR 0x0A \<longleftrightarrow> line \<noteq> [] \<and> last line = CHR 0x0A"
    using g(2) lg by (simp add: line'_def nl_def)
  have "TrimSuffix line' CHR 0x0A = f0 @ CHR '' '' # f1 @ CHR '' '' # f2 @ CHR '' '' # g"
  proof (cases "line \<noteq> [] \<and> last line = CHR 0x0A")
    case True
    then have "line' = (f0 @ CHR '' '' # f1 @ CHR '' '' # f2 @ CHR '' '' # g) @ [CHR 0x0A]"
      by (simp add: line'_def nl_def)
    then show ?thesis
      by (simp only: TrimSuffix_def butlast_snoc last_snoc) simp
  next
    case False
    with la ne have "TrimSuffix line' CHR 0x0A = line'"
      by (simp add: TrimSuffix_def)
    with False show ?thesis
      by (simp add: line'_def nl_def)
  qed
  then have t: "TrimSuffix line' CHR 0x0A = Join [f0, f1, f2, g] CHR '' ''"
    by simp
  from Split_fields_no_sep [of "CHR '' ''" "TrimSuffix line CHR 0x0A"] f
  have "CHR '' '' \<notin> set f0 \<and> CHR '' '' \<notin> set f1 \<and> CHR '' '' \<notin> set f2"
    by (simp add: line_fields_def)
  with gs have "Split (Join [f0, f1, f2, g] CHR '' '') CHR '' '' = [f0, f1, f2, g]"
    by (intro Split_Join) simp_all
  with t show "line_fields line' = [f0, f1, f2, g]"
    by (simp add: line_fields_def)
qed

lemma read_line_rewrite:
  assumes e: "read_line uni line offs = Entry name k"
    and f: "line_fields line = [f0, f1, f2, f3]"
    and g: "length g = 20" "ParseUint g \<noteq> None"
  defines "nl \<equiv> (if line \<noteq> [] \<and> last line = CHR 0x0A then [CHR 0x0A] else [])"
  defines "line' \<equiv> f0 @ CHR '' '' # f1 @ CHR '' '' # f2 @ CHR '' '' # g @ nl"
  shows "read_line uni line' offs' = read_line uni line offs'"
proof -
  from g obtain n where "ParseUint g = Some n" by auto
  then have gd: "list_all is_digit g" by (rule ParseUint_digits)
  from g(1) have gne: "g \<noteq> []" by auto
  note r = rewrite_fields [OF f gd gne, folded nl_def, folded line'_def]
  from line_of_four_fields [OF f] have lne: "line \<noteq> []" by auto
  from read_line_Entry_cases [OF e] f
  have l3: "length f3 = 20" and p3: "ParseUint f3 \<noteq> None" and l1: "length f1 = 1"
    and c1: "CHR ''6'' \<le> f1 ! 0 \<and> f1 ! 0 \<le> CHR ''8''"
    and dk: "decodeKey uni f2 \<noteq> None"
    using e unfolding read_line_def line_fields_def [symmetric] Let_def
    by (auto split: option.splits if_splits)
  from p3 g(2) obtain a b where "ParseUint f3 = Some a" "ParseUint g = Some b" by auto
  with l3 g(1) l1 c1 dk lne r show ?thesis
    unfolding read_line_def line_fields_def [symmetric] Let_def counterLen_def f
    by (auto split: option.splits)
qed

text \<open>In a list of lines.\<close>

lemma pieces_after_update:
  assumes "pieces_after ps c" and "j < length ps"
    and "p' \<noteq> [] \<longleftrightarrow> ps ! j \<noteq> []" and "last p' = c \<longleftrightarrow> last (ps ! j) = c"
    and "c \<in> set (butlast p') \<longleftrightarrow> c \<in> set (butlast (ps ! j))"
    and "c \<in> set p' \<longleftrightarrow> c \<in> set (ps ! j)"
  shows "pieces_after (ps[j := p']) c"
  using assms
proof (induction ps c arbitrary: j rule: pieces_after.induct)
  case (1 c)
  then show ?case by simp
next
  case (2 p c)
  then show ?case by simp
next
  case (3 p q ps c)
  show ?case
  proof (cases j)
    case 0
    with 3(2-) show ?thesis by simp
  next
    case (Suc m)
    with 3(2-) have "pieces_after ((q # ps)[m := p']) c"
      by (intro 3(1)) simp_all
    with 3(2) Suc show ?thesis
      by (cases m) simp_all
  qed
qed

lemma outcomes_update:
  assumes "j < length lines" and "length line' = length (lines ! j)"
    and "\<And>offs. read_line uni line' offs = read_line uni (lines ! j) offs"
  shows "outcomes uni (lines[j := line']) offs = outcomes uni lines offs"
  using assms
proof (induction lines arbitrary: j offs)
  case Nil
  then show ?case by simp
next
  case (Cons l ls)
  show ?case
  proof (cases j)
    case 0
    with Cons.prems show ?thesis by simp
  next
    case (Suc m)
    with Cons.prems Cons.IH [of m] show ?thesis by simp
  qed
qed

lemma concat_update:
  "j < length ls \<Longrightarrow>
   concat (ls[j := l]) = concat (take j ls) @ l @ concat (drop (Suc j) ls)"
  by (simp add: upd_conv_take_nth_drop)

lemma concat_nth:
  "j < length ls \<Longrightarrow> concat ls = concat (take j ls) @ ls ! j @ concat (drop (Suc j) ls)"
  using concat_update [of j ls "ls ! j"] by simp

text \<open>
  In the file: writing twenty digits that parse over the counter of a stored record
  gives a file in which the loop stores and reports the same.
\<close>

lemma outcome_rewrite:
  assumes j: "j < length (SplitAfter d CHR 0x0A)"
    and e: "outcomes uni (SplitAfter d CHR 0x0A) 0 ! j = Entry name k"
    and o: "offset k \<noteq> 0"
    and g: "length g = 20" "ParseUint g \<noteq> None"
  shows "\<exists>a f b. d = a @ f @ b \<and> offset k = int (length a) \<and> length f = 20 \<and>
           ParseUint f \<noteq> None \<and>
           outcomes uni (SplitAfter (a @ g @ b) CHR 0x0A) 0 = outcomes uni (SplitAfter d CHR 0x0A) 0"
proof -
  let ?lines = "SplitAfter d CHR 0x0A"
  let ?line = "?lines ! j"
  let ?pre = "concat (take j ?lines)"
  let ?post = "concat (drop (Suc j) ?lines)"
  have rl: "read_line uni ?line (int (length ?pre) + int (length ?line)) = Entry name k"
    using outcome_line [OF j e] j by (simp add: take_Suc_conv_app_nth)
  from read_line_Entry_cases [OF rl] o have l4: "length (line_fields ?line) = 4"
    by auto
  then obtain f0 f1 f2 f3 where f: "line_fields ?line = [f0, f1, f2, f3]"
    using four_fields by blast
  define nl where "nl = (if ?line \<noteq> [] \<and> last ?line = CHR 0x0A then [CHR 0x0A] else [])"
  define pfx where "pfx = f0 @ CHR '' '' # f1 @ CHR '' '' # f2 @ [CHR '' '']"
  define line' where "line' = pfx @ g @ nl"
  have line: "?line = pfx @ f3 @ nl"
    using line_of_four_fields [OF f] by (simp add: pfx_def nl_def)
  then have lne: "?line \<noteq> []" by (auto simp: pfx_def)
  from read_line_Entry_cases [OF rl] f
  have l3: "length f3 = 20" and p3: "ParseUint f3 \<noteq> None"
    and ok: "offset k = int (length ?pre) + int (length ?line) - 20 -
               (if last ?line = CHR 0x0A then 1 else 0)"
    by auto
  have len: "length ?line = length pfx + 20 + length nl"
    by (subst line) (simp add: l3)
  then have ok': "offset k = int (length (?pre @ pfx))"
    using ok lne by (auto simp: nl_def split: if_splits)
  have line'_eq: "line' = f0 @ CHR '' '' # f1 @ CHR '' '' # f2 @ CHR '' '' # g @ nl"
    by (simp add: line'_def pfx_def)
  have rd: "read_line uni line' offs = read_line uni ?line offs" for offs
    unfolding line'_eq nl_def by (rule read_line_rewrite [OF rl f g])
  have ll: "length line' = length ?line"
    by (simp add: line'_def len g(1))
  from g obtain n where "ParseUint g = Some n" by auto
  then have gd: "list_all is_digit g" by (rule ParseUint_digits)
  from p3 obtain n3 where "ParseUint f3 = Some n3" by auto
  then have fd: "list_all is_digit f3" by (rule ParseUint_digits)
  have gn: "CHR 0x0A \<notin> set g" and fn: "CHR 0x0A \<notin> set f3"
    using list_all_digit_no_sep gd fd by blast+
  have g0: "g \<noteq> []" and f0': "f3 \<noteq> []" using g(1) l3 by auto
  have shape: "(line' \<noteq> [] \<longleftrightarrow> ?line \<noteq> []) \<and> (last line' = CHR 0x0A \<longleftrightarrow> last ?line = CHR 0x0A) \<and>
      (CHR 0x0A \<in> set (butlast line') \<longleftrightarrow> CHR 0x0A \<in> set (butlast ?line)) \<and>
      (CHR 0x0A \<in> set line' \<longleftrightarrow> CHR 0x0A \<in> set ?line)"
  proof (cases "nl = []")
    case True
    have "set (butlast g) \<subseteq> set g" "set (butlast f3) \<subseteq> set f3"
      by (auto dest: in_set_butlastD)
    with gn fn have "CHR 0x0A \<notin> set (butlast g)" "CHR 0x0A \<notin> set (butlast f3)" by auto
    moreover have "last g \<noteq> CHR 0x0A" "last f3 \<noteq> CHR 0x0A"
      using gn fn g0 f0' last_in_set by metis+
    ultimately show ?thesis
      using True gn fn g0 f0' by (simp add: line'_def line butlast_append)
  next
    case False
    then have "nl = [CHR 0x0A]" by (auto simp: nl_def split: if_splits)
    then show ?thesis
      using gn fn by (simp add: line'_def line butlast_append)
  qed
  have pa: "pieces_after (?lines[j := line']) CHR 0x0A"
    using shape by (intro pieces_after_update [OF pieces_after_SplitAfter j]) simp_all
  have d: "d = (?pre @ pfx) @ f3 @ (nl @ ?post)"
    using concat_nth [OF j] line by simp
  have "(?pre @ pfx) @ g @ (nl @ ?post) = concat (?lines[j := line'])"
    using concat_update [OF j, of line'] by (simp add: line'_def)
  then have "SplitAfter ((?pre @ pfx) @ g @ (nl @ ?post)) CHR 0x0A = ?lines[j := line']"
    using SplitAfter_concat [OF pa] by simp
  then have "outcomes uni (SplitAfter ((?pre @ pfx) @ g @ (nl @ ?post)) CHR 0x0A) 0 = outcomes uni ?lines 0"
    using outcomes_update [OF j ll rd] by simp
  with d ok' l3 p3 show ?thesis by blast
qed

section \<open>Evaluation of \<open>code\<close> on a counter-based key\<close>

lemmas code_eval =
  code_def counter_chain_def counter_world_def counter_data_def slice_def WriteAt_def
  Sprintf_0d_def decimal.simps [of "numeral n"] decimal.simps [of 0] decimal.simps [of "Suc 0"]
  replicate_numeral_eval store_eval for n

lemma counter_load_zeros:
  "readKeychain uni ''.2fa'' (counter_world ''00000000000000000000'') =
     Inr (counter_chain ''00000000000000000000'', counter_world ''00000000000000000000'')"
  by (simp add: readKeychain_def code_eval)

lemma counter_load_max:
  "readKeychain uni ''.2fa'' (counter_world ''18446744073709551615'') =
     Inr (counter_chain ''18446744073709551615'', counter_world ''18446744073709551615'')"
  by (simp add: readKeychain_def code_eval)

lemma code_zeros:
  "code (counter_chain ''00000000000000000000'') ''github''
        (counter_world ''00000000000000000000'') =
     Inr (''287082'', counter_world ''00000000000000000001'')"
  by (simp add: code_eval hotp_rfc_1)

lemma code_zeros_again:
  "code (counter_chain ''00000000000000000000'') ''github''
        (counter_world ''00000000000000000001'') =
     Inr (''287082'', counter_world ''00000000000000000001'')"
  by (simp add: code_eval hotp_rfc_1)


text \<open>
  A key with an offset beyond the bytes of the data. Within the capacity of the buffer
  the twenty bytes of the slice are spare bytes, which are no digits, and the program
  ends with \<open>malformed key counter\<close>; beyond the capacity the slice expression panics.
  (No key that \<open>readKeychain\<close> stores has such an offset, see \<open>loaded_key\<close>.)
\<close>

lemma code_beyond_length:
  "code ((counter_chain ''00000000000000000000'')
           \<lparr>keys := fmupd ''github'' \<lparr>raw = rfc_key, digits = 6, offset = 63\<rparr> fmempty\<rparr>)
        ''github'' w =
     Inl (MalformedKeyCounter ''github'' (replicate 20 (CHR 0x00)))"
  by (simp add: code_eval spare_zeros_def)

lemma code_beyond_capacity:
  "code ((counter_chain ''00000000000000000000'')
           \<lparr>keys := fmupd ''github'' \<lparr>raw = rfc_key, digits = 6, offset = 600\<rparr> fmempty\<rparr>)
        ''github'' w =
     Inl Panic"
  by (simp add: code_eval spare_zeros_def)

section \<open>Properties of \<open>code\<close>\<close>

lemma loaded_counter_rewrite:
  assumes "readable (files w fname) d" and "readKeychain uni fname w = Inr (c, w')"
    and "fmlookup (keys c) name = Some k" and "offset k \<noteq> 0"
    and "length g = 20" and "ParseUint g \<noteq> None"
  shows "\<exists>a f b. d = a @ f @ b \<and> offset k = int (length a) \<and> length f = 20 \<and>
           ParseUint f \<noteq> None \<and>
           outcomes uni (SplitAfter (a @ g @ b) CHR 0x0A) 0 = outcomes uni (SplitAfter d CHR 0x0A) 0"
proof -
  let ?rs = "outcomes uni (SplitAfter d CHR 0x0A) 0"
  from readKeychain_readable [OF assms(1)] assms(2)
  have "keys c = fold store ?rs fmempty" by auto
  with assms(3) fold_store_origin [of ?rs fmempty name k]
  obtain j where "j < length (SplitAfter d CHR 0x0A)" "?rs ! j = Entry name k"
    by auto
  from outcome_rewrite [OF this assms(4-6)] show ?thesis .
qed

lemma Sprintf_0d_value:
  assumes "0 \<le> width" and "0 \<le> v" and "v < 18446744073709551616"
  shows "parse_digits (Sprintf_0d width v) 0 = Some (nat v)"
proof -
  from assms(2,3) have "nat v < 18446744073709551616" by simp
  then have "parse_digits (decimal (nat v)) 0 = Some (nat v)"
    using parse_digits_decimal [of 0 "nat v"] by simp
  with assms(1,2) show ?thesis
    by (simp add: Sprintf_0d_def parse_digits_append parse_digits_zeros)
qed

lemma Sprintf_0d_hotp_inj:
  assumes "0 \<le> width"
  shows "Sprintf_0d width (hotp key a n) = Sprintf_0d width (hotp key b n) \<longleftrightarrow>
         hotp key a n = hotp key b n"
proof
  assume e: "Sprintf_0d width (hotp key a n) = Sprintf_0d width (hotp key b n)"
  have r: "0 \<le> hotp key x n \<and> hotp key x n < 18446744073709551616" for x
    using hotp_bounds [of key x n] by simp
  from Sprintf_0d_value [OF assms, of "hotp key a n"] Sprintf_0d_value [OF assms, of "hotp key b n"] r e
  have "nat (hotp key a n) = nat (hotp key b n)" by simp
  with r [of a] r [of b] show "hotp key a n = hotp key b n" by arith
qed simp

lemmas counter_text_eval =
  Sprintf_0d_def counterLen_def decimal.simps [of 0] decimal.simps [of "Suc 0"]
  decimal.simps [of "numeral n"] replicate_numeral_eval char_of_def bit_Suc_0_iff for n

lemma Sprintf_counter_0: "Sprintf_0d counterLen 0 = ''00000000000000000000''"
  by (simp add: counter_text_eval)

lemma Sprintf_counter_1: "Sprintf_0d counterLen 1 = ''00000000000000000001''"
  by (simp add: counter_text_eval)

lemma Sprintf_counter_2: "Sprintf_0d counterLen 2 = ''00000000000000000002''"
  by (simp add: counter_text_eval)

lemma ParseUint_0: "ParseUint ''00000000000000000000'' = Some 0"
  by (simp add: ParseUint_def is_digit_def)

lemma ParseUint_1: "ParseUint ''00000000000000000001'' = Some 1"
  by (simp add: ParseUint_def is_digit_def)

text \<open>
  C8. The in-place counter rewrite performed by Code always writes exactly 20 ASCII
  decimal digit bytes (zero-padded) at the record's counterFileOffset, so the backing
  file's length and the byte offsets of all other records are unchanged by the operation:
  for a keychain loaded from the file, the new file is the old one with the twenty
  digits at the offset, of the same length, and the same before and after them.
\<close>

theorem code_rewrites_counter_in_place:
  assumes "files w fname = Contents d"
    and "readKeychain uni fname w = Inr (c, w1)"
    and "fmlookup (keys c) name = Some k" and "offset k \<noteq> 0"
  shows "\<exists>n d'. code c name w1 =
             Inr (Sprintf_0d (digits k) (hotp (raw k) n (digits k)),
                  w1\<lparr>files := (files w1)(fname := Contents d')\<rparr>) \<and>
           d' = take (nat (offset k)) d @ Sprintf_0d counterLen (uint n) @
                drop (nat (offset k) + 20) d \<and>
           length (Sprintf_0d counterLen (uint n)) = 20 \<and>
           list_all is_digit (Sprintf_0d counterLen (uint n)) \<and>
           nat (offset k) + 20 \<le> length d \<and> length d' = length d \<and>
           take (nat (offset k)) d' = take (nat (offset k)) d \<and>
           drop (nat (offset k) + 20) d' = drop (nat (offset k) + 20) d"
proof -
  have rd: "readable (files w fname) d"
    using assms(1) by (simp add: readable_def)
  from loaded_key [OF rd assms(2,3)] assms(4)
  obtain a f b where c: "file' c = fname" "data c = d" "files w1 = files w"
    and d: "d = a @ f @ b" and o: "offset k = int (length a)" and lf: "length f = 20"
    and pf: "ParseUint f \<noteq> None"
    by auto
  from pf obtain n0 where n0: "ParseUint f = Some n0" by auto
  have sl: "slice (data c) (offset k) (offset k + counterLen) = Some f"
    unfolding c(2) d o by (rule slice_middle [OF lf])
  have fl: "files w1 (file' c) = Contents d"
    using c(1,3) assms(1) by simp
  let ?s = "Sprintf_0d counterLen (uint (n0 + 1))"
  have "code c name w1 =
      Inr (Sprintf_0d (digits k) (hotp (raw k) (n0 + 1) (digits k)),
           w1\<lparr>files := (files w1)(fname := Contents (a @ ?s @ b))\<rparr>)"
    using code_counter [OF assms(3,4) sl n0 fl] by (simp add: c(1) d o lf)
  moreover have "a @ ?s @ b = take (nat (offset k)) d @ ?s @ drop (nat (offset k) + 20) d"
    by (simp add: d o lf)
  moreover have "length (a @ ?s @ b) = length d"
    by (simp add: d lf)
  moreover have "take (nat (offset k)) (a @ ?s @ b) = take (nat (offset k)) d"
    by (simp add: d o)
  moreover have "drop (nat (offset k) + 20) (a @ ?s @ b) = drop (nat (offset k) + 20) d"
    by (simp add: d o lf)
  moreover have "nat (offset k) + 20 \<le> length d"
    by (simp add: d o lf)
  ultimately show ?thesis
    using digits_Sprintf_counter [of "n0 + 1"] length_Sprintf_counter [of "n0 + 1"]
    by (intro exI [of _ "n0 + 1"] exI [of _ "a @ ?s @ b"]) simp
qed

theorem code_rewrites_counter_in_place_witness:
  "files (counter_world ''00000000000000000000'') ''.2fa'' =
     Contents (counter_data ''00000000000000000000'') \<and>
   readKeychain no_unicode ''.2fa'' (counter_world ''00000000000000000000'') =
     Inr (counter_chain ''00000000000000000000'', counter_world ''00000000000000000000'') \<and>
   fmlookup (keys (counter_chain ''00000000000000000000'')) ''github'' =
     Some \<lparr>raw = rfc_key, digits = 6, offset = 42\<rparr> \<and>
   offset \<lparr>raw = rfc_key, digits = 6, offset = 42\<rparr> \<noteq> 0 \<and>
   (\<exists>n d'. code (counter_chain ''00000000000000000000'') ''github''
               (counter_world ''00000000000000000000'') =
             Inr (Sprintf_0d 6 (hotp rfc_key n 6),
                  (counter_world ''00000000000000000000'')
                    \<lparr>files := (files (counter_world ''00000000000000000000''))
                       (''.2fa'' := Contents d')\<rparr>) \<and>
           length d' = length (counter_data ''00000000000000000000''))"
proof -
  have f: "files (counter_world ''00000000000000000000'') ''.2fa'' =
     Contents (counter_data ''00000000000000000000'')"
    by (simp add: counter_world_def)
  have l: "fmlookup (keys (counter_chain ''00000000000000000000'')) ''github'' =
     Some \<lparr>raw = rfc_key, digits = 6, offset = 42\<rparr>"
    by (simp add: counter_chain_def)
  have o: "offset \<lparr>raw = rfc_key, digits = 6, offset = 42\<rparr> \<noteq> 0" by simp
  from code_rewrites_counter_in_place [OF f counter_load_zeros l o]
  obtain n d' where
    "code (counter_chain ''00000000000000000000'') ''github''
       (counter_world ''00000000000000000000'') =
     Inr (Sprintf_0d (digits \<lparr>raw = rfc_key, digits = 6, offset = 42\<rparr>)
            (hotp (raw \<lparr>raw = rfc_key, digits = 6, offset = 42\<rparr>) n
               (digits \<lparr>raw = rfc_key, digits = 6, offset = 42\<rparr>)),
          (counter_world ''00000000000000000000'')
            \<lparr>files := (files (counter_world ''00000000000000000000''))
               (''.2fa'' := Contents d')\<rparr>)"
    and "length d' = length (counter_data ''00000000000000000000'')"
    by blast
  then have "\<exists>n d'. code (counter_chain ''00000000000000000000'') ''github''
               (counter_world ''00000000000000000000'') =
             Inr (Sprintf_0d 6 (hotp rfc_key n 6),
                  (counter_world ''00000000000000000000'')
                    \<lparr>files := (files (counter_world ''00000000000000000000''))
                       (''.2fa'' := Contents d')\<rparr>) \<and>
           length d' = length (counter_data ''00000000000000000000'')"
    by (intro exI [of _ n] exI [of _ d']) simp
  with f l o counter_load_zeros show ?thesis by simp
qed

text \<open>
  C9. Counter advancement in Code wraps modulo \<open>2\<^sup>6\<^sup>4\<close>: if the stored 20-digit counter
  field parses to 18446744073709551615, the increment yields 0, the code for counter 0
  is produced, and twenty zeros are written back.
\<close>

theorem code_counter_wraps:
  assumes "fmlookup (keys c) name = Some k" and "offset k \<noteq> 0"
    and "slice (data c) (offset k) (offset k + counterLen) = Some field"
    and "ParseUint field = Some 18446744073709551615"
    and "files w (file' c) = Contents old"
  shows "code c name w =
     Inr (Sprintf_0d (digits k) (hotp (raw k) 0 (digits k)),
          w\<lparr>files := (files w)(file' c := Contents
               (take (nat (offset k)) old @ replicate (nat (offset k) - length old) (CHR 0x00) @
                ''00000000000000000000'' @ drop (nat (offset k) + 20) old))\<rparr>)"
proof -
  have e: "(18446744073709551615 :: uint64) + 1 = 0" by simp
  from code_counter [OF assms] show ?thesis
    unfolding e by (simp add: Sprintf_counter_0)
qed

theorem code_counter_wraps_witness:
  "fmlookup (keys (counter_chain ''18446744073709551615'')) ''github'' =
     Some \<lparr>raw = rfc_key, digits = 6, offset = 42\<rparr> \<and>
   offset \<lparr>raw = rfc_key, digits = 6, offset = 42\<rparr> \<noteq> 0 \<and>
   slice (data (counter_chain ''18446744073709551615'')) 42 (42 + counterLen) =
     Some ''18446744073709551615'' \<and>
   ParseUint ''18446744073709551615'' = Some 18446744073709551615 \<and>
   files (counter_world ''18446744073709551615'')
     (file' (counter_chain ''18446744073709551615'')) =
     Contents (counter_data ''18446744073709551615'') \<and>
   readKeychain no_unicode ''.2fa'' (counter_world ''18446744073709551615'') =
     Inr (counter_chain ''18446744073709551615'', counter_world ''18446744073709551615'') \<and>
   code (counter_chain ''18446744073709551615'') ''github''
        (counter_world ''18446744073709551615'') =
     Inr (''755224'', counter_world ''00000000000000000000'')"
proof -
  let ?k = "\<lparr>raw = rfc_key, digits = 6, offset = 42\<rparr>"
  have l: "fmlookup (keys (counter_chain ''18446744073709551615'')) ''github'' = Some ?k"
    by (simp add: counter_chain_def)
  have o: "offset ?k \<noteq> 0" by simp
  have s: "slice (data (counter_chain ''18446744073709551615'')) (offset ?k)
             (offset ?k + counterLen) = Some ''18446744073709551615''"
    by (simp add: counter_chain_def counter_data_def slice_def counterLen_def)
  have p: "ParseUint ''18446744073709551615'' = Some 18446744073709551615"
    by (simp add: ParseUint_def is_digit_def)
  have f: "files (counter_world ''18446744073709551615'')
     (file' (counter_chain ''18446744073709551615'')) =
     Contents (counter_data ''18446744073709551615'')"
    by (simp add: counter_world_def counter_chain_def)
  have "code (counter_chain ''18446744073709551615'') ''github''
        (counter_world ''18446744073709551615'') =
     Inr (''755224'', counter_world ''00000000000000000000'')"
    unfolding code_counter_wraps [OF l o s p f]
    by (simp add: hotp_rfc_0 code_eval)
  with l o s p f counter_load_max show ?thesis by simp
qed

text \<open>
  C1, as the spec states it: calling Code twice in succession on a counter-based record
  whose stored counter is twenty zeros gives two different codes, from the counters 1
  and 2, and leaves \<open>00000000000000000002\<close> in the file. \<open>code\<close> reads the counter from
  \<open>c.data\<close>, the bytes read at load, which it never updates: on the keychain loaded
  from the file with the key of RFC 4226, the first call returns 287082 (counter 1) and
  writes \<open>00000000000000000001\<close>, and the second call on that keychain returns 287082
  again and leaves \<open>00000000000000000001\<close> in the file.
\<close>

theorem code_twice_on_one_keychain_counterexample:
  "readKeychain no_unicode ''.2fa'' (counter_world ''00000000000000000000'') =
     Inr (counter_chain ''00000000000000000000'', counter_world ''00000000000000000000'') \<and>
   code (counter_chain ''00000000000000000000'') ''github''
        (counter_world ''00000000000000000000'') =
     Inr (''287082'', counter_world ''00000000000000000001'') \<and>
   code (counter_chain ''00000000000000000000'') ''github''
        (counter_world ''00000000000000000001'') =
     Inr (''287082'', counter_world ''00000000000000000001'') \<and>
   files (counter_world ''00000000000000000001'') ''.2fa'' =
     Contents ''github 6 GEZDGNBVGY3TQOJQGEZDGNBVGY3TQOJQ 00000000000000000001\<newline>''"
  using counter_load_zeros code_zeros code_zeros_again
  by (simp add: counter_world_def counter_data_def)

text \<open>
  C1, amended: calling Code on a counter-based record whose stored counter is twenty
  zeros, loading the keychain again from the file (as the next run of the program does)
  and calling Code again gives the codes of the counters 1 and 2 (two different strings
  exactly when the two HOTP values differ; they need not, see \<open>hotp_counters_collide\<close>),
  and leaves \<open>00000000000000000002\<close> in the counter field of the file, whose length
  is unchanged.
\<close>

theorem code_twice_across_reload:
  assumes "files w fname = Contents d"
    and "readKeychain uni fname w = Inr (c, w1)"
    and "fmlookup (keys c) name = Some k" and "offset k \<noteq> 0"
    and "slice d (offset k) (offset k + counterLen) = Some ''00000000000000000000''"
  shows "\<exists>w2 c' w3 w4 d1 d2.
     code c name w1 = Inr (Sprintf_0d (digits k) (hotp (raw k) 1 (digits k)), w2) \<and>
     files w2 fname = Contents d1 \<and>
     d1 = take (nat (offset k)) d @ ''00000000000000000001'' @ drop (nat (offset k) + 20) d \<and>
     readKeychain uni fname w2 = Inr (c', w3) \<and> keys c' = keys c \<and>
     code c' name w3 = Inr (Sprintf_0d (digits k) (hotp (raw k) 2 (digits k)), w4) \<and>
     files w4 fname = Contents d2 \<and>
     d2 = take (nat (offset k)) d @ ''00000000000000000002'' @ drop (nat (offset k) + 20) d \<and>
     slice d2 (offset k) (offset k + counterLen) = Some ''00000000000000000002'' \<and>
     length d2 = length d \<and>
     (Sprintf_0d (digits k) (hotp (raw k) 1 (digits k)) =
        Sprintf_0d (digits k) (hotp (raw k) 2 (digits k)) \<longleftrightarrow>
      hotp (raw k) 1 (digits k) = hotp (raw k) 2 (digits k))"
proof -
  let ?z = "''00000000000000000000''"
  let ?one = "''00000000000000000001''"
  let ?two = "''00000000000000000002''"
  have rd: "readable (files w fname) d"
    using assms(1) by (simp add: readable_def)
  have g: "length ?one = 20" "ParseUint ?one \<noteq> None"
    by (simp_all add: ParseUint_1)
  from loaded_key [OF rd assms(2,3)]
  have c: "file' c = fname" "data c = d" "files w1 = files w" and dg: "0 \<le> digits k"
    by auto
  from loaded_counter_rewrite [OF rd assms(2-4) g]
  obtain a f b where d: "d = a @ f @ b" and o: "offset k = int (length a)"
    and lf: "length f = 20"
    and oc: "outcomes uni (SplitAfter (a @ ?one @ b) CHR 0x0A) 0 = outcomes uni (SplitAfter d CHR 0x0A) 0"
    by blast
  have "slice d (offset k) (offset k + counterLen) = Some f"
    unfolding d o by (rule slice_middle [OF lf])
  with assms(5) have f: "f = ?z" by simp
  let ?d1 = "a @ ?one @ b"
  let ?d2 = "a @ ?two @ b"
  let ?w2 = "w1\<lparr>files := (files w1)(fname := Contents ?d1)\<rparr>"
  \<comment> \<open>the first call\<close>
  have sl: "slice (data c) (offset k) (offset k + counterLen) = Some ?z"
    using assms(5) c(2) by simp
  have fl: "files w1 (file' c) = Contents d"
    using c(1,3) assms(1) by simp
  have c1: "code c name w1 = Inr (Sprintf_0d (digits k) (hotp (raw k) 1 (digits k)), ?w2)"
    using code_counter [OF assms(3,4) sl ParseUint_0 fl]
    by (simp add: c(1) d o lf f Sprintf_counter_1)
  \<comment> \<open>loading again\<close>
  have rd2: "readable (files ?w2 fname) ?d1"
    by (simp add: readable_def)
  let ?c' = "\<lparr>file' = fname, data = ?d1, spare = read_spare ?w2 ?d1,
              keys = fold store (outcomes uni (SplitAfter ?d1 CHR 0x0A) 0) fmempty\<rparr>"
  let ?w3 = "?w2\<lparr>stderr := stderr ?w2 @ reports fname 0 (outcomes uni (SplitAfter ?d1 CHR 0x0A) 0)\<rparr>"
  have r2: "readKeychain uni fname ?w2 = Inr (?c', ?w3)"
    by (rule readKeychain_readable [OF rd2])
  from readKeychain_readable [OF rd] assms(2)
  have "keys c = fold store (outcomes uni (SplitAfter d CHR 0x0A) 0) fmempty" by auto
  with oc have kc: "keys ?c' = keys c" by simp
  \<comment> \<open>the second call\<close>
  have l2: "fmlookup (keys ?c') name = Some k"
    using kc assms(3) by simp
  have sl2: "slice (data ?c') (offset k) (offset k + counterLen) = Some ?one"
    unfolding o using slice_middle [of ?one a b] by simp
  have fl2: "files ?w3 (file' ?c') = Contents ?d1" by simp
  let ?w4 = "?w3\<lparr>files := (files ?w3)(fname := Contents ?d2)\<rparr>"
  have "(1 :: uint64) + 1 = 2" by simp
  then have c2: "code ?c' name ?w3 = Inr (Sprintf_0d (digits k) (hotp (raw k) 2 (digits k)), ?w4)"
    using code_counter [OF l2 assms(4) sl2 ParseUint_1 fl2]
    by (simp add: o Sprintf_counter_2)
  have e1: "?d1 = take (nat (offset k)) d @ ?one @ drop (nat (offset k) + 20) d"
    and e2: "?d2 = take (nat (offset k)) d @ ?two @ drop (nat (offset k) + 20) d"
    by (simp_all add: d o lf)
  have s2: "slice ?d2 (offset k) (offset k + counterLen) = Some ?two"
    unfolding o using slice_middle [of ?two a b] by simp
  have len: "length ?d2 = length d"
    by (simp add: d lf)
  have "files ?w2 fname = Contents ?d1" "files ?w4 fname = Contents ?d2"
    by simp_all
  with c1 r2 kc c2 e1 e2 s2 len Sprintf_0d_hotp_inj [OF dg, of "raw k" 1 "digits k" 2]
  show ?thesis
    by (intro exI [of _ ?w2] exI [of _ ?c'] exI [of _ ?w3] exI [of _ ?w4]
        exI [of _ ?d1] exI [of _ ?d2]) (simp only: simp_thms)
qed

theorem code_twice_across_reload_witness:
  "files (counter_world ''00000000000000000000'') ''.2fa'' =
     Contents (counter_data ''00000000000000000000'') \<and>
   readKeychain no_unicode ''.2fa'' (counter_world ''00000000000000000000'') =
     Inr (counter_chain ''00000000000000000000'', counter_world ''00000000000000000000'') \<and>
   fmlookup (keys (counter_chain ''00000000000000000000'')) ''github'' =
     Some \<lparr>raw = rfc_key, digits = 6, offset = 42\<rparr> \<and>
   offset \<lparr>raw = rfc_key, digits = 6, offset = 42\<rparr> \<noteq> 0 \<and>
   slice (counter_data ''00000000000000000000'') 42 (42 + counterLen) =
     Some ''00000000000000000000'' \<and>
   (\<exists>w2 c' w3 w4.
      code (counter_chain ''00000000000000000000'') ''github''
           (counter_world ''00000000000000000000'') =
        Inr (Sprintf_0d 6 (hotp rfc_key 1 6), w2) \<and>
      readKeychain no_unicode ''.2fa'' w2 = Inr (c', w3) \<and>
      code c' ''github'' w3 = Inr (Sprintf_0d 6 (hotp rfc_key 2 6), w4) \<and>
      files w4 ''.2fa'' = Contents (counter_data ''00000000000000000002''))"
proof -
  let ?k = "\<lparr>raw = rfc_key, digits = 6, offset = 42\<rparr>"
  have f: "files (counter_world ''00000000000000000000'') ''.2fa'' =
     Contents (counter_data ''00000000000000000000'')"
    by (simp add: counter_world_def)
  have l: "fmlookup (keys (counter_chain ''00000000000000000000'')) ''github'' = Some ?k"
    by (simp add: counter_chain_def)
  have o: "offset ?k \<noteq> 0" by simp
  have s: "slice (counter_data ''00000000000000000000'') (offset ?k) (offset ?k + counterLen) =
     Some ''00000000000000000000''"
    by (simp add: counter_data_def slice_def counterLen_def)
  have e: "take (nat (offset ?k)) (counter_data ''00000000000000000000'') @
        ''00000000000000000002'' @
        drop (nat (offset ?k) + 20) (counter_data ''00000000000000000000'') =
      counter_data ''00000000000000000002''"
    by (simp add: counter_data_def)
  from code_twice_across_reload [where uni = no_unicode, OF f counter_load_zeros l o s]
  obtain w2 c' w3 w4 where
    "code (counter_chain ''00000000000000000000'') ''github''
       (counter_world ''00000000000000000000'') = Inr (Sprintf_0d 6 (hotp rfc_key 1 6), w2)"
    "readKeychain no_unicode ''.2fa'' w2 = Inr (c', w3)"
    "code c' ''github'' w3 = Inr (Sprintf_0d 6 (hotp rfc_key 2 6), w4)"
    "files w4 ''.2fa'' = Contents (counter_data ''00000000000000000002'')"
    unfolding e by auto
  then have "\<exists>w2 c' w3 w4.
      code (counter_chain ''00000000000000000000'') ''github''
           (counter_world ''00000000000000000000'') =
        Inr (Sprintf_0d 6 (hotp rfc_key 1 6), w2) \<and>
      readKeychain no_unicode ''.2fa'' w2 = Inr (c', w3) \<and>
      code c' ''github'' w3 = Inr (Sprintf_0d 6 (hotp rfc_key 2 6), w4) \<and>
      files w4 ''.2fa'' = Contents (counter_data ''00000000000000000002'')"
    by blast
  with f l o s counter_load_zeros show ?thesis by simp
qed

section \<open>Properties of \<open>showAll\<close>\<close>

lemma max_digits_fold_ge:
  "m \<le> fold (\<lambda>name m. case fmlookup ks name of
                       None \<Rightarrow> m
                     | Some k \<Rightarrow> if m < digits k then digits k else m) names m"
proof (induction names arbitrary: m)
  case Nil
  then show ?case by simp
next
  case (Cons name names)
  let ?m = "case fmlookup ks name of None \<Rightarrow> m | Some k \<Rightarrow> if m < digits k then digits k else m"
  have "m \<le> ?m" by (simp split: option.split)
  also note Cons [of ?m]
  finally show ?case by simp
qed

lemma max_digits_fold_bound:
  "name \<in> set names \<Longrightarrow> fmlookup ks name = Some k \<Longrightarrow>
   digits k \<le> fold (\<lambda>name m. case fmlookup ks name of
                       None \<Rightarrow> m
                     | Some k \<Rightarrow> if m < digits k then digits k else m) names m"
proof (induction names arbitrary: m)
  case Nil
  then show ?case by simp
next
  case (Cons n names)
  let ?m = "case fmlookup ks n of None \<Rightarrow> m | Some k \<Rightarrow> if m < digits k then digits k else m"
  show ?case
  proof (cases "name = n")
    case True
    with Cons.prems have "digits k \<le> ?m" by simp
    also note max_digits_fold_ge [of ?m ks names]
    finally show ?thesis by simp
  next
    case False
    with Cons.prems Cons.IH [of ?m] show ?thesis by simp
  qed
qed

lemma max_digits_fold_attained:
  "fold (\<lambda>name m. case fmlookup ks name of
                       None \<Rightarrow> m
                     | Some k \<Rightarrow> if m < digits k then digits k else m) names m = m \<or>
   (\<exists>name \<in> set names. \<exists>k. fmlookup ks name = Some k \<and>
      fold (\<lambda>name m. case fmlookup ks name of
                       None \<Rightarrow> m
                     | Some k \<Rightarrow> if m < digits k then digits k else m) names m = digits k)"
proof (induction names arbitrary: m)
  case Nil
  then show ?case by simp
next
  case (Cons n names)
  let ?m = "case fmlookup ks n of None \<Rightarrow> m | Some k \<Rightarrow> if m < digits k then digits k else m"
  have "?m = m \<or> (\<exists>k. fmlookup ks n = Some k \<and> ?m = digits k)"
    by (simp split: option.split)
  with Cons [of ?m] show ?case by auto
qed

lemma max_digits_nonneg: "0 \<le> max_digits c names"
  unfolding max_digits_def by (rule max_digits_fold_ge)

lemma Printf_line_left_justify:
  "0 \<le> mx \<Longrightarrow> Printf_line mx cd name = left_justify mx cd @ [CHR 0x09] @ name @ [CHR 0x0A]"
  by (simp add: Printf_line_def left_justify_def)

text \<open>The loop over the names, for keys whose \<open>digits\<close> are not negative.\<close>

lemma show_names_rendered:
  assumes "\<forall>name \<in> set names. \<exists>k. fmlookup (keys c) name = Some k \<and> 0 \<le> digits k"
    and "0 \<le> mx"
  shows "show_names c mx names w =
     Inr (w\<lparr>stdout := stdout w @ rendered c mx (clock w) (ticks w) names,
            ticks := ticks w + time_based c names\<rparr>)"
  using assms(1)
proof (induction names arbitrary: w)
  case Nil
  then show ?case by (simp add: time_based_def)
next
  case (Cons name names)
  then obtain k where k: "fmlookup (keys c) name = Some k" "0 \<le> digits k"
    by auto
  from Cons.prems have rest: "\<forall>name \<in> set names. \<exists>k. fmlookup (keys c) name = Some k \<and> 0 \<le> digits k"
    by simp
  show ?case
  proof (cases "offset k = 0")
    case True
    let ?cd = "Sprintf_0d (digits k) (totp (raw k) (clock w (ticks w)) (digits k))"
    let ?w = "w\<lparr>ticks := ticks w + 1, stdout := stdout w @ [Printf_line mx ?cd name]\<rparr>"
    have "show_names c mx (name # names) w = show_names c mx names ?w"
      using k True code_time [OF k(1) True, of w] by simp
    also note Cons.IH [OF rest, of ?w]
    finally show ?thesis
      using k True assms(2) by (simp add: Printf_line_left_justify time_based_def)
  next
    case False
    let ?w = "w\<lparr>stdout := stdout w @ [Printf_line mx (replicate (nat (digits k)) CHR ''-'') name]\<rparr>"
    have "show_names c mx (name # names) w = show_names c mx names ?w"
      using k False by simp
    also note Cons.IH [OF rest, of ?w]
    finally show ?thesis
      using k False assms(2) by (simp add: Printf_line_left_justify time_based_def)
  qed
qed

lemma sorted_names:
  "sorted (sorted_list_of_fset S) \<and> distinct (sorted_list_of_fset S)"
  by (simp add: sorted_list_of_fset.rep_eq)

text \<open>
  C7. ShowAll iterates names in lexicographically sorted order; for every time-based
  entry it renders its computed code, and for every counter-based entry it renders a
  string of exactly \<open>digits\<close> dash characters and performs no write to the backing file;
  each code is left-justified to the maximum digit count among all entries, followed by
  a tab and the name. Here \<open>c\<close> is a keychain that \<open>readKeychain\<close> loaded, and an entry
  is time-based when its offset is 0 (see C10).
\<close>

theorem showAll_prints_codes_and_placeholders:
  assumes "readable (files w0 fname) d" and "readKeychain uni fname w0 = Inr (c, w1)"
  shows "\<exists>w' mx. showAll c w = Inr w' \<and> files w' = files w \<and>
           stdout w' =
             stdout w @ rendered c mx (clock w) (ticks w) (sorted_list_of_fset (fmdom (keys c))) \<and>
           sorted (sorted_list_of_fset (fmdom (keys c))) \<and>
           distinct (sorted_list_of_fset (fmdom (keys c))) \<and>
           set (sorted_list_of_fset (fmdom (keys c))) = fmdom' (keys c) \<and>
           (\<forall>name k. fmlookup (keys c) name = Some k \<longrightarrow> digits k \<le> mx) \<and>
           (fmdom' (keys c) = {} \<and> mx = 0 \<or>
            (\<exists>name k. fmlookup (keys c) name = Some k \<and> mx = digits k))"
proof -
  let ?names = "sorted_list_of_fset (fmdom (keys c))"
  let ?mx = "max_digits c ?names"
  have set: "set ?names = fmdom' (keys c)"
    by (simp add: fmdom'_alt_def)
  have dg: "\<forall>name \<in> set ?names. \<exists>k. fmlookup (keys c) name = Some k \<and> 0 \<le> digits k"
  proof
    fix name assume "name \<in> set ?names"
    with set obtain k where k: "fmlookup (keys c) name = Some k"
      by (auto simp: fmlookup_dom'_iff)
    from loaded_key [OF assms k] have "0 \<le> digits k" by simp
    with k show "\<exists>k. fmlookup (keys c) name = Some k \<and> 0 \<le> digits k" by blast
  qed
  let ?w = "w\<lparr>stdout := stdout w @ rendered c ?mx (clock w) (ticks w) ?names,
              ticks := ticks w + time_based c ?names\<rparr>"
  have run: "showAll c w = Inr ?w"
    unfolding showAll_def Let_def
    by (rule show_names_rendered [OF dg max_digits_nonneg])
  have bound: "digits k \<le> ?mx" if "fmlookup (keys c) name = Some k" for name k
  proof -
    from that set have "name \<in> set ?names"
      by (auto simp: fmlookup_dom'_iff)
    from max_digits_fold_bound [OF this that] show ?thesis
      by (simp add: max_digits_def)
  qed
  have att: "fmdom' (keys c) = {} \<and> ?mx = 0 \<or>
      (\<exists>name k. fmlookup (keys c) name = Some k \<and> ?mx = digits k)"
  proof (cases "fmdom' (keys c) = {}")
    case True
    with set have "set ?names = {}" by (simp only:)
    then have "?names = []" by (simp only: set_empty)
    with True show ?thesis by (simp add: max_digits_def)
  next
    case False
    then obtain name k where k: "fmlookup (keys c) name = Some k"
      by (auto simp: fmlookup_dom'_iff)
    from loaded_key [OF assms k] bound [OF k] have "?mx \<noteq> 0" by simp
    with max_digits_fold_attained [of "keys c" ?names 0] show ?thesis
      by (auto simp: max_digits_def)
  qed
  show ?thesis
    using run set bound att sorted_names [of "fmdom (keys c)"]
    by (intro exI [of _ ?w] exI [of _ ?mx]) auto
qed

section \<open>Evaluation of \<open>showAll\<close> on a keychain file\<close>

lemma show_load: "readKeychain uni ''.2fa'' show_world = Inr (show_chain, show_world)"
  by (simp add: readKeychain_def show_world_def show_chain_def show_data_def store_eval)

lemma show_names_sorted:
  "sorted_list_of_fset (fmdom (keys show_chain)) = [''hotp'', ''totp'']"
proof -
  have "fset (fmdom (keys show_chain)) = {''hotp'', ''totp''}"
    by (simp add: show_chain_def fmdom'_alt_def [symmetric])
  then show ?thesis
    by (simp add: sorted_list_of_fset.rep_eq)
qed

lemma show_time: "totp rfc_key \<lparr>sec = 59, nsec = 0\<rparr> 6 = 287082"
proof -
  have "UnixNano \<lparr>sec = 59, nsec = 0\<rparr> div 30000000000 = 1"
    by (simp add: UnixNano_def)
  then show ?thesis
    by (simp add: totp_def hotp_rfc_1)
qed

lemma show_output:
  "showAll show_chain show_world =
     Inr (show_world\<lparr>stdout := [''--------'' @ [CHR 0x09] @ ''hotp\<newline>'',
                                ''287082  '' @ [CHR 0x09] @ ''totp\<newline>''],
                       ticks := 1\<rparr>)"
  unfolding showAll_def show_names_sorted Let_def
  by (simp add: max_digits_def show_chain_def show_world_def code_def time_Now_def show_time
      Printf_line_def Sprintf_0d_def decimal.simps [of "numeral n" for n] replicate_numeral_eval
      char_of_def bit_Suc_0_iff)

theorem showAll_prints_codes_and_placeholders_witness:
  "readable (files show_world ''.2fa'') show_data \<and>
   readKeychain no_unicode ''.2fa'' show_world = Inr (show_chain, show_world) \<and>
   showAll show_chain show_world =
     Inr (show_world\<lparr>stdout := [''--------'' @ [CHR 0x09] @ ''hotp\<newline>'',
                                ''287082  '' @ [CHR 0x09] @ ''totp\<newline>''],
                       ticks := 1\<rparr>) \<and>
   (\<exists>w' mx. showAll show_chain show_world = Inr w' \<and> files w' = files show_world \<and>
      stdout w' = stdout show_world @
        rendered show_chain mx (clock show_world) (ticks show_world) [''hotp'', ''totp''] \<and>
      mx = 8)"
proof -
  have r: "readable (files show_world ''.2fa'') show_data"
    by (simp add: readable_def show_world_def)
  from showAll_prints_codes_and_placeholders [OF r show_load, of show_world]
  obtain w' mx where w: "showAll show_chain show_world = Inr w'" "files w' = files show_world"
    "stdout w' = stdout show_world @
        rendered show_chain mx (clock show_world) (ticks show_world)
          (sorted_list_of_fset (fmdom (keys show_chain)))"
    and b: "\<forall>name k. fmlookup (keys show_chain) name = Some k \<longrightarrow> digits k \<le> mx"
    and a: "fmdom' (keys show_chain) = {} \<and> mx = 0 \<or>
            (\<exists>name k. fmlookup (keys show_chain) name = Some k \<and> mx = digits k)"
    by blast
  from b [rule_format, of "''hotp''" "\<lparr>raw = rfc_key, digits = 8, offset = 80\<rparr>"]
  have "8 \<le> mx" by (simp add: show_chain_def)
  moreover from a have "mx \<le> 8" by (auto simp: show_chain_def split: if_splits)
  ultimately have "mx = 8" by simp
  with w have "\<exists>w' mx. showAll show_chain show_world = Inr w' \<and> files w' = files show_world \<and>
      stdout w' = stdout show_world @
        rendered show_chain mx (clock show_world) (ticks show_world) [''hotp'', ''totp''] \<and>
      mx = 8"
    unfolding show_names_sorted by blast
  with r show_load show_output show ?thesis by simp
qed

end
